theory Spec2Isabelle
  imports Main "HOL-Library.Monad_Syntax" "HOL-Library.Multiset"
begin

section \<open>Data model\<close>

text \<open>
  A node of the B-tree, as the class \<open>BTreeNode<T>\<close> declares it: the minimum degree
  \<open>t\<close>, the flag \<open>is_leaf\<close>, the key count \<open>n\<close>, the key array and the array of child
  pointers. The fields \<open>t\<close> and \<open>n\<close> are the selectors \<open>node_t\<close> and \<open>node_n\<close>. A child
  pointer is an option: \<open>None\<close> is \<open>nullptr\<close>, \<open>Some c\<close> owns the node \<open>c\<close> (every node
  is owned by exactly one slot, so the pointer structure is a tree of values). Key
  type \<open>T\<close> is any linear order; \<open>0\<close> stands for the value-initialised \<open>T()\<close> that
  \<open>resize\<close> fills the key array with.
\<close>

datatype 'a node =
  Node (node_t: int) (is_leaf: bool) (node_n: int) (keys: "'a list")
       (children: "'a node option list")

record 'a btree =
  root :: "'a node option"
  tree_t :: int

text \<open>
  \<open>std::vector::operator[]\<close> outside the vector, and a call through a null pointer, are
  undefined behaviour. Every operation returns an option and \<open>None\<close> is that outcome
  (or the \<open>length_error\<close> of a \<open>resize\<close> to a negative size).
\<close>

definition rd :: "'b list \<Rightarrow> int \<Rightarrow> 'b option" where
  "rd xs i = (if 0 \<le> i \<and> i < int (length xs) then Some (xs ! nat i) else None)"

definition wr :: "'b list \<Rightarrow> int \<Rightarrow> 'b \<Rightarrow> 'b list option" where
  "wr xs i v = (if 0 \<le> i \<and> i < int (length xs) then Some (xs[nat i := v]) else None)"

text \<open>
  The fields \<open>t\<close> and \<open>n\<close> and the loop indices are C++ \<open>int\<close>s, taken to be 32 bits
  wide. They are integers here, and the largest value the code computes from the
  degree is \<open>2 * t\<close>: the key count \<open>n\<close>, \<open>n + 1\<close>, \<open>t - 1\<close> and the indices \<open>j + t\<close> of
  \<open>split_child\<close> do not exceed it on the nodes the constructor builds. So the range
  of \<open>int\<close> is checked where \<open>2 * t\<close> and \<open>2 * t - 1\<close> are computed: \<open>int_val x\<close> is the
  value of an \<open>int\<close> expression whose mathematical value is \<open>x\<close>, and \<open>None\<close> when
  \<open>x\<close> does not fit (signed overflow, undefined behaviour; on the usual wrap-around
  \<open>2 * t\<close> is negative for \<open>t \<ge> 2^30\<close> and the \<open>resize\<close> to it throws \<open>length_error\<close>).
\<close>

definition INT_MAX :: int where
  "INT_MAX = 2147483647"

definition INT_MIN :: int where
  "INT_MIN = - 2147483648"

definition int_val :: "int \<Rightarrow> int option" where
  "int_val x = (if INT_MIN \<le> x \<and> x \<le> INT_MAX then Some x else None)"

text \<open>The expression \<open>2 * t - 1\<close>, the number of keys of a full node.\<close>

definition two_t_minus_1 :: "int \<Rightarrow> int option" where
  "two_t_minus_1 t = do { d \<leftarrow> int_val (2 * t); int_val (d - 1) }"

text \<open>
  The constructor \<open>BTreeNode(_t, _is_leaf)\<close>: \<open>n = 0\<close>, then \<open>keys.resize(2 * t - 1)\<close>
  and \<open>children.resize(2 * t, nullptr)\<close>. A negative size is a huge \<open>size_t\<close> and
  \<open>resize\<close> throws.
\<close>

definition new_node :: "int \<Rightarrow> bool \<Rightarrow> ('a::zero) node option" where
  "new_node t leaf =
     do { m \<leftarrow> two_t_minus_1 t;
          d \<leftarrow> int_val (2 * t);
          if m < 0 then None
          else Some (Node t leaf 0 (replicate (nat m) 0) (replicate (nat d) None)) }"

text \<open>The constructor \<open>BTree(_t)\<close>: no root, the degree stored as given.\<close>

definition BTree :: "int \<Rightarrow> 'a btree" where
  "BTree t = \<lparr>root = None, tree_t = t\<rparr>"

text \<open>
  The height of a subtree: a leaf has height 1, an internal node is one above its
  highest child. It is also the measure by which the recursive methods terminate.
\<close>

fun height :: "'a node \<Rightarrow> nat" where
  "height (Node t l n ks cs) =
     (if l then 1
      else 1 + fold max (map (\<lambda>c. case c of None \<Rightarrow> 0 | Some d \<Rightarrow> height d) cs) 0)"

definition tree_height :: "'a btree \<Rightarrow> nat" where
  "tree_height tr = (case root tr of None \<Rightarrow> 0 | Some r \<Rightarrow> height r)"

lemma fold_max_ge: "x \<in> set xs \<Longrightarrow> (x::nat) \<le> fold max xs a"
proof (induction xs arbitrary: a)
  case Nil
  then show ?case by simp
next
  case (Cons y ys)
  have mono: "\<And>b. b \<le> fold max ys b"
  proof -
    fix b :: nat
    show "b \<le> fold max ys b"
      by (induction ys arbitrary: b) (auto intro: order_trans [OF max.cobounded2])
  qed
  show ?case
  proof (cases "x = y")
    case True
    then show ?thesis
      using mono [of "max y a"] by simp
  next
    case False
    then show ?thesis using Cons by simp
  qed
qed

lemma height_child:
  assumes "rd (children nd) i = Some (Some c)" and "\<not> is_leaf nd"
  shows "height c < height nd"
proof -
  obtain t l n ks cs where nd: "nd = Node t l n ks cs" by (cases nd)
  from assms nd have "nat i < length cs" and "cs ! nat i = Some c"
    by (auto simp: rd_def split: if_splits)
  then have "Some c \<in> set cs"
    using nth_mem by fastforce
  then have "height c \<in> set (map (\<lambda>c. case c of None \<Rightarrow> 0 | Some d \<Rightarrow> height d) cs)"
    by force
  from fold_max_ge [OF this, of 0] assms nd show ?thesis by simp
qed

section \<open>BTreeNode::search and BTreeNode::traverse\<close>

text \<open>The scan \<open>while (i < n && k > keys[i]) i++\<close>.\<close>

function search_scan :: "'a::linorder \<Rightarrow> 'a node \<Rightarrow> int \<Rightarrow> int option" where
  "search_scan k nd i =
     (if i < node_n nd then
        do { x \<leftarrow> rd (keys nd) i;
             if k > x then search_scan k nd (i + 1) else Some i }
      else Some i)"
  by pat_completeness auto
termination
  by (relation "measure (\<lambda>(k, nd, i). nat (node_n nd - i))") auto

declare search_scan.simps [simp del]

text \<open>
  \<open>BTreeNode::search\<close>: the result \<open>Some (Some nd)\<close> is the pointer to the node that
  holds the key, \<open>Some None\<close> is \<open>nullptr\<close>.
\<close>

function BTreeNode_search :: "'a::linorder \<Rightarrow> 'a node \<Rightarrow> 'a node option option" where
  "BTreeNode_search k nd =
     do { i \<leftarrow> search_scan k nd 0;
          hit \<leftarrow> (if i < node_n nd then do { x \<leftarrow> rd (keys nd) i; Some (x = k) }
                  else Some False);
          if hit then Some (Some nd)
          else if is_leaf nd then Some None
          else do { co \<leftarrow> rd (children nd) i;
                    case co of
                      None \<Rightarrow> (if i \<le> node_n nd then Some None else None)
                    | Some c \<Rightarrow> BTreeNode_search k c } }"
  by pat_completeness auto
termination
  by (relation "measure (\<lambda>(k, nd). height nd)") (auto intro: height_child)

declare BTreeNode_search.simps [simp del]

text \<open>
  \<open>BTreeNode::search\<close> is not a \<open>const\<close> method, so its type lets a call change the node
  it is called on and the nodes below. \<open>BTreeNode_search_st\<close> is the same method with
  that effect made explicit: next to the pointer it returns the node as the call
  leaves it, and the child as the recursive call \<open>children[i]->search(k)\<close> leaves it
  takes its place in slot \<open>i\<close>, as with the recursive call of \<open>insert_non_full\<close> below.
\<close>

function BTreeNode_search_st ::
  "'a::linorder \<Rightarrow> 'a node \<Rightarrow> ('a node option \<times> 'a node) option" where
  "BTreeNode_search_st k nd =
     do { i \<leftarrow> search_scan k nd 0;
          hit \<leftarrow> (if i < node_n nd then do { x \<leftarrow> rd (keys nd) i; Some (x = k) }
                  else Some False);
          if hit then Some (Some nd, nd)
          else if is_leaf nd then Some (None, nd)
          else do { co \<leftarrow> rd (children nd) i;
                    case co of
                      None \<Rightarrow> (if i \<le> node_n nd then Some (None, nd) else None)
                    | Some c \<Rightarrow>
                        do { r \<leftarrow> BTreeNode_search_st k c;
                             cs \<leftarrow> wr (children nd) i (Some (snd r));
                             Some (fst r,
                                   Node (node_t nd) (is_leaf nd) (node_n nd) (keys nd) cs) } } }"
  by pat_completeness auto
termination
  by (relation "measure (\<lambda>(k, nd). height nd)") (auto intro: height_child)

declare BTreeNode_search_st.simps [simp del]

text \<open>
  \<open>BTreeNode::traverse\<close>, with the keys it prints collected in a list. The function is
  the loop \<open>for (i = 0; i < n; i++)\<close> from index \<open>i\<close> on, followed by the visit of the
  last child.
\<close>

function traverse_loop :: "'a node \<Rightarrow> int \<Rightarrow> 'a list option" where
  "traverse_loop nd i =
     (if i < node_n nd then
        do { a \<leftarrow> (if \<not> is_leaf nd then
                    do { co \<leftarrow> rd (children nd) i;
                         case co of None \<Rightarrow> Some [] | Some c \<Rightarrow> traverse_loop c 0 }
                  else Some []);
             x \<leftarrow> rd (keys nd) i;
             rest \<leftarrow> traverse_loop nd (i + 1);
             Some (a @ x # rest) }
      else if \<not> is_leaf nd then
        do { co \<leftarrow> rd (children nd) i;
             case co of None \<Rightarrow> Some [] | Some c \<Rightarrow> traverse_loop c 0 }
      else Some [])"
  by pat_completeness auto
termination
  by (relation "inv_image (less_than <*lex*> less_than)
                 (\<lambda>(nd, i). (height nd, nat (node_n nd - i)))")
     (auto intro: height_child)

declare traverse_loop.simps [simp del]

definition BTreeNode_traverse :: "'a node \<Rightarrow> 'a list option" where
  "BTreeNode_traverse nd = traverse_loop nd 0"

section \<open>BTreeNode::split_child\<close>

text \<open>\<open>for (j = 0; j < t - 1; j++) z->keys[j] = y->keys[j + t]\<close>\<close>

function copy_keys :: "int \<Rightarrow> 'a list \<Rightarrow> 'a list \<Rightarrow> int \<Rightarrow> 'a list option" where
  "copy_keys t yk zk j =
     (if j < t - 1 then
        do { v \<leftarrow> rd yk (j + t); zk' \<leftarrow> wr zk j v; copy_keys t yk zk' (j + 1) }
      else Some zk)"
  by pat_completeness auto
termination
  by (relation "measure (\<lambda>(t, yk, zk, j). nat (t - 1 - j))") auto

declare copy_keys.simps [simp del]

text \<open>
  \<open>for (j = 0; j < t; j++) { z->children[j] = y->children[j + t];
  y->children[j + t] = nullptr; }\<close>, returning the child arrays of \<open>z\<close> and of \<open>y\<close>.
\<close>

function move_children ::
  "int \<Rightarrow> 'b option list \<Rightarrow> 'b option list \<Rightarrow> int \<Rightarrow> ('b option list \<times> 'b option list) option"
where
  "move_children t zc yc j =
     (if j < t then
        do { c \<leftarrow> rd yc (j + t); zc' \<leftarrow> wr zc j c; yc' \<leftarrow> wr yc (j + t) None;
             move_children t zc' yc' (j + 1) }
      else Some (zc, yc))"
  by pat_completeness auto
termination
  by (relation "measure (\<lambda>(t, zc, yc, j). nat (t - j))") auto

declare move_children.simps [simp del]

text \<open>
  The two loops that open a slot in the parent,
  \<open>for (j = n; j >= i + 1; j--) children[j + 1] = children[j]\<close> and
  \<open>for (j = n - 1; j >= i; j--) keys[j + 1] = keys[j]\<close>: from \<open>j\<close> down to \<open>lo\<close>.
\<close>

function shift_right :: "'b list \<Rightarrow> int \<Rightarrow> int \<Rightarrow> 'b list option" where
  "shift_right xs lo j =
     (if j \<ge> lo then
        do { v \<leftarrow> rd xs j; xs' \<leftarrow> wr xs (j + 1) v; shift_right xs' lo (j - 1) }
      else Some xs)"
  by pat_completeness auto
termination
  by (relation "measure (\<lambda>(xs, lo, j). nat (j + 1 - lo))") auto

declare shift_right.simps [simp del]

text \<open>
  \<open>split_child(i, y)\<close> on the node \<open>p\<close>. Both callers pass \<open>y = children[i]\<close>, and the
  method changes \<open>y\<close> through that pointer: the model reads \<open>y\<close> from slot \<open>i\<close> and
  stores the changed \<open>y\<close> back there (the shift of the children starts at \<open>i + 1\<close> and
  leaves slot \<open>i\<close> alone).
\<close>

definition split_child :: "int \<Rightarrow> ('a::zero) node \<Rightarrow> 'a node option" where
  "split_child i p =
     do { yo \<leftarrow> rd (children p) i;
          y \<leftarrow> yo;
          z0 \<leftarrow> new_node (node_t y) (is_leaf y);
          zk \<leftarrow> copy_keys (node_t p) (keys y) (keys z0) 0;
          zy \<leftarrow> (if \<not> is_leaf y then move_children (node_t p) (children z0) (children y) 0
                 else Some (children z0, children y));
          let z = Node (node_t y) (is_leaf y) (node_t p - 1) zk (fst zy);
          let y' = Node (node_t y) (is_leaf y) (node_t p - 1) (keys y) (snd zy);
          cs0 \<leftarrow> wr (children p) i (Some y');
          cs1 \<leftarrow> shift_right cs0 (i + 1) (node_n p);
          cs2 \<leftarrow> wr cs1 (i + 1) (Some z);
          ks1 \<leftarrow> shift_right (keys p) i (node_n p - 1);
          m \<leftarrow> rd (keys y) (node_t p - 1);
          ks2 \<leftarrow> wr ks1 i m;
          Some (Node (node_t p) (is_leaf p) (node_n p + 1) ks2 cs2) }"

lemma split_child_SomeD:
  assumes "split_child i p = Some p'"
  shows "\<exists>y z0 zk zy cs0 cs1 cs2 ks1 m ks2.
    rd (children p) i = Some (Some y) \<and>
    new_node (node_t y) (is_leaf y) = Some z0 \<and>
    copy_keys (node_t p) (keys y) (keys z0) 0 = Some zk \<and>
    (if \<not> is_leaf y then move_children (node_t p) (children z0) (children y) 0
     else Some (children z0, children y)) = Some zy \<and>
    wr (children p) i (Some (Node (node_t y) (is_leaf y) (node_t p - 1) (keys y) (snd zy)))
      = Some cs0 \<and>
    shift_right cs0 (i + 1) (node_n p) = Some cs1 \<and>
    wr cs1 (i + 1) (Some (Node (node_t y) (is_leaf y) (node_t p - 1) zk (fst zy))) = Some cs2 \<and>
    shift_right (keys p) i (node_n p - 1) = Some ks1 \<and>
    rd (keys y) (node_t p - 1) = Some m \<and>
    wr ks1 i m = Some ks2 \<and>
    p' = Node (node_t p) (is_leaf p) (node_n p + 1) ks2 cs2"
  using assms unfolding split_child_def Let_def bind_eq_Some_conv
  by blast

lemma fold_max_le: "(\<forall>x\<in>set xs. x \<le> b) \<Longrightarrow> a \<le> b \<Longrightarrow> fold max xs a \<le> (b::nat)"
  by (induction xs arbitrary: a) auto

lemma height_mono:
  assumes "is_leaf a = is_leaf b"
    and "\<And>c. Some c \<in> set (children a) \<Longrightarrow> Some c \<in> set (children b)"
  shows "height a \<le> height b"
proof (cases "is_leaf b")
  case True
  with assms(1) show ?thesis by (cases a; cases b) simp
next
  case False
  let ?f = "\<lambda>c. case c of None \<Rightarrow> 0 | Some d \<Rightarrow> height d"
  have "fold max (map ?f (children a)) 0 \<le> fold max (map ?f (children b)) 0"
  proof (rule fold_max_le)
    show "\<forall>x\<in>set (map ?f (children a)). x \<le> fold max (map ?f (children b)) 0"
    proof
      fix x assume "x \<in> set (map ?f (children a))"
      then obtain co where co: "co \<in> set (children a)" "x = ?f co" by auto
      show "x \<le> fold max (map ?f (children b)) 0"
      proof (cases co)
        case None
        with co show ?thesis by simp
      next
        case (Some c)
        with co assms(2) have "?f co \<in> set (map ?f (children b))" by force
        from fold_max_ge [OF this] co show ?thesis by simp
      qed
    qed
  qed simp
  with False assms(1) show ?thesis by (cases a; cases b) simp
qed

lemma wr_set: "wr xs i v = Some xs' \<Longrightarrow> set xs' \<subseteq> insert v (set xs)"
proof -
  assume "wr xs i v = Some xs'"
  then have "xs' = xs[nat i := v]" by (simp add: wr_def split: if_splits)
  then show ?thesis by (simp add: set_update_subset_insert)
qed

lemma shift_right_set: "shift_right xs lo j = Some xs' \<Longrightarrow> set xs' \<subseteq> set xs"
proof (induction xs lo j arbitrary: xs' rule: shift_right.induct)
  case (1 xs lo j)
  show ?case
  proof (cases "j \<ge> lo")
    case True
    with "1.prems" obtain v xs1 where
      v: "rd xs j = Some v" and xs1: "wr xs (j + 1) v = Some xs1"
      and rest: "shift_right xs1 lo (j - 1) = Some xs'"
      by (auto simp: shift_right.simps [of xs] bind_eq_Some_conv)
    from v have "v \<in> set xs" by (auto simp: rd_def split: if_splits)
    with wr_set [OF xs1] have "set xs1 \<subseteq> set xs" by auto
    with "1.IH" [OF True v xs1 rest] show ?thesis by blast
  next
    case False
    with "1.prems" show ?thesis by (simp add: shift_right.simps [of xs])
  qed
qed

lemma move_children_step:
  assumes "move_children t zc yc j = Some r" "j < t"
  shows "\<exists>c zc1 yc1. rd yc (j + t) = Some c \<and> wr zc j c = Some zc1 \<and>
       wr yc (j + t) None = Some yc1 \<and> move_children t zc1 yc1 (j + 1) = Some r"
  using assms
  apply (subst (asm) move_children.simps)
  apply (simp add: bind_eq_Some_conv)
  done

lemma move_children_stop:
  assumes "move_children t zc yc j = Some r" "\<not> j < t"
  shows "r = (zc, yc)"
  using assms
  apply (subst (asm) move_children.simps)
  apply simp
  done

lemma move_children_set:
  "move_children t zc yc j = Some (zc', yc') \<Longrightarrow>
   set zc' \<subseteq> insert None (set zc \<union> set yc) \<and> set yc' \<subseteq> insert None (set yc)"
proof (induction t zc yc j arbitrary: zc' yc' rule: move_children.induct)
  case (1 t zc yc j)
  show ?case
  proof (cases "j < t")
    case True
    from move_children_step [OF "1.prems" True] obtain c zc1 yc1 where
      c: "rd yc (j + t) = Some c" and zc1: "wr zc j c = Some zc1"
      and yc1: "wr yc (j + t) None = Some yc1"
      and rest: "move_children t zc1 yc1 (j + 1) = Some (zc', yc')"
      by blast
    from c have cin: "c \<in> set yc" by (auto simp: rd_def split: if_splits)
    note ih = "1.IH" [OF True c zc1 yc1 rest]
    from wr_set [OF zc1] cin have a: "set zc1 \<subseteq> set zc \<union> set yc" by auto
    from wr_set [OF yc1] have b: "set yc1 \<subseteq> insert None (set yc)" by auto
    from ih have "set zc' \<subseteq> insert None (set zc1 \<union> set yc1)"
      and "set yc' \<subseteq> insert None (set yc1)" by simp_all
    with a b show ?thesis by auto
  next
    case False
    from move_children_stop [OF "1.prems" False] show ?thesis by auto
  qed
qed

lemma split_child_height:
  assumes sp: "split_child i p = Some p'" and leaf: "\<not> is_leaf p"
    and c: "Some c \<in> set (children p')"
  shows "height c < height p"
proof -
  from split_child_SomeD [OF sp] obtain y z0 zk zy cs0 cs1 cs2 ks2 where
    y: "rd (children p) i = Some (Some y)"
    and z0: "new_node (node_t y) (is_leaf y) = Some (z0 :: 'a node)"
    and zy: "(if \<not> is_leaf y then move_children (node_t p) (children z0) (children y) 0
              else Some (children z0, children y)) = Some zy"
    and cs0: "wr (children p) i
                (Some (Node (node_t y) (is_leaf y) (node_t p - 1) (keys y) (snd zy))) = Some cs0"
    and cs1: "shift_right cs0 (i + 1) (node_n p) = Some cs1"
    and cs2: "wr cs1 (i + 1) (Some (Node (node_t y) (is_leaf y) (node_t p - 1) zk (fst zy)))
                = Some cs2"
    and p'eq: "p' = Node (node_t p) (is_leaf p) (node_n p + 1) ks2 cs2"
    by blast
  from p'eq have p': "children p' = cs2" by simp
  let ?z = "Node (node_t y) (is_leaf y) (node_t p - 1) zk (fst zy)"
  let ?y = "Node (node_t y) (is_leaf y) (node_t p - 1) (keys y) (snd zy)"
  from z0 have z0c: "set (children z0) \<subseteq> {None}"
    by (auto simp: new_node_def bind_eq_Some_conv split: if_splits)
  have sets: "set (fst zy) \<subseteq> insert None (set (children y))"
             "set (snd zy) \<subseteq> insert None (set (children y))"
  proof -
    show "set (fst zy) \<subseteq> insert None (set (children y))"
    proof (cases "is_leaf y")
      case True
      with zy z0c show ?thesis by auto
    next
      case False
      with zy move_children_set [of "node_t p" "children z0" "children y" 0 "fst zy" "snd zy"] z0c
      show ?thesis by auto
    qed
    show "set (snd zy) \<subseteq> insert None (set (children y))"
    proof (cases "is_leaf y")
      case True
      with zy show ?thesis by auto
    next
      case False
      with zy move_children_set [of "node_t p" "children z0" "children y" 0 "fst zy" "snd zy"]
      show ?thesis by auto
    qed
  qed
  have hy: "height y < height p" by (rule height_child [OF y leaf])
  have hz: "height ?z \<le> height y" using sets(1) by (intro height_mono) auto
  have hy': "height ?y \<le> height y" using sets(2) by (intro height_mono) auto
  from c p' wr_set [OF cs2] shift_right_set [OF cs1] wr_set [OF cs0]
  have "c = ?z \<or> c = ?y \<or> Some c \<in> set (children p)" by auto
  moreover have "height c < height p" if "Some c \<in> set (children p)"
  proof -
    from that obtain j where "j < length (children p)" "children p ! j = Some c"
      by (auto simp: in_set_conv_nth)
    then have "rd (children p) (int j) = Some (Some c)" by (simp add: rd_def)
    from height_child [OF this leaf] show ?thesis .
  qed
  ultimately show ?thesis using hy hz hy' by auto
qed

section \<open>BTreeNode::insert_non_full\<close>

text \<open>
  The leaf loop \<open>while (i >= 0 && keys[i] > k) { keys[i + 1] = keys[i]; i--; }\<close>,
  returning the key array and the final \<open>i\<close>.
\<close>

function leaf_shift :: "'a::linorder \<Rightarrow> 'a list \<Rightarrow> int \<Rightarrow> ('a list \<times> int) option" where
  "leaf_shift k ks i =
     (if i \<ge> 0 then
        do { x \<leftarrow> rd ks i;
             if x > k then do { ks' \<leftarrow> wr ks (i + 1) x; leaf_shift k ks' (i - 1) }
             else Some (ks, i) }
      else Some (ks, i))"
  by pat_completeness auto
termination
  by (relation "measure (\<lambda>(k, ks, i). nat (i + 1))") auto

declare leaf_shift.simps [simp del]

text \<open>The scan of an internal node, \<open>while (i >= 0 && keys[i] > k) i--\<close>.\<close>

function find_child :: "'a::linorder \<Rightarrow> 'a list \<Rightarrow> int \<Rightarrow> int option" where
  "find_child k ks i =
     (if i \<ge> 0 then
        do { x \<leftarrow> rd ks i;
             if x > k then find_child k ks (i - 1) else Some i }
      else Some i)"
  by pat_completeness auto
termination
  by (relation "measure (\<lambda>(k, ks, i). nat (i + 1))") auto

declare find_child.simps [simp del]

text \<open>
  The test \<open>if (children[i + 1]->n == 2 * t - 1)\<close> with its body: the node after the
  possible split and the index \<open>i\<close> after the possible increment.
\<close>

definition split_if_full ::
  "'a::{linorder,zero} \<Rightarrow> int \<Rightarrow> 'a node \<Rightarrow> ('a node \<times> int) option" where
  "split_if_full k i nd =
     do { co \<leftarrow> rd (children nd) (i + 1);
          c \<leftarrow> co;
          full \<leftarrow> two_t_minus_1 (node_t nd);
          if node_n c = full then
            do { nd' \<leftarrow> split_child (i + 1) nd;
                 m \<leftarrow> rd (keys nd') (i + 1);
                 Some (nd', if m < k then i + 1 else i) }
          else Some (nd, i) }"

lemma split_if_full_height:
  assumes "split_if_full k i nd = Some r" and "\<not> is_leaf nd"
    and "rd (children (fst r)) j = Some (Some c)"
  shows "height c < height nd"
proof -
  from assms(1) have "fst r = nd \<or> (\<exists>i'. split_child i' nd = Some (fst r))"
    by (auto simp: split_if_full_def bind_eq_Some_conv split: if_splits)
  then show ?thesis
  proof
    assume "fst r = nd"
    with assms show ?thesis by (auto intro: height_child)
  next
    assume "\<exists>i'. split_child i' nd = Some (fst r)"
    then obtain i' where sp: "split_child i' nd = Some (fst r)" ..
    from assms(3) have "nat j < length (children (fst r))"
      and "children (fst r) ! nat j = Some c"
      by (auto simp: rd_def split: if_splits)
    then have "Some c \<in> set (children (fst r))"
      using nth_mem by fastforce
    from split_child_height [OF sp assms(2) this] show ?thesis .
  qed
qed

text \<open>
  \<open>insert_non_full(k)\<close> on the node \<open>nd\<close>, returning the node after the call. The
  recursive call changes the child in place: the model stores the changed child back
  in its slot.
\<close>

function insert_non_full :: "'a::{linorder,zero} \<Rightarrow> 'a node \<Rightarrow> 'a node option" where
  "insert_non_full k nd =
     (if is_leaf nd then
        do { r \<leftarrow> leaf_shift k (keys nd) (node_n nd - 1);
             ks' \<leftarrow> wr (fst r) (snd r + 1) k;
             Some (Node (node_t nd) (is_leaf nd) (node_n nd + 1) ks' (children nd)) }
      else
        do { i \<leftarrow> find_child k (keys nd) (node_n nd - 1);
             r \<leftarrow> split_if_full k i nd;
             co \<leftarrow> rd (children (fst r)) (snd r + 1);
             c \<leftarrow> co;
             c' \<leftarrow> insert_non_full k c;
             cs' \<leftarrow> wr (children (fst r)) (snd r + 1) (Some c');
             Some (Node (node_t (fst r)) (is_leaf (fst r)) (node_n (fst r)) (keys (fst r)) cs') })"
  by pat_completeness auto
termination
  by (relation "measure (\<lambda>(k, nd). height nd)") (auto intro: split_if_full_height)

declare insert_non_full.simps [simp del]

section \<open>The class BTree\<close>

definition BTree_traverse :: "'a btree \<Rightarrow> 'a list option" where
  "BTree_traverse tr = (case root tr of None \<Rightarrow> Some [] | Some r \<Rightarrow> BTreeNode_traverse r)"

definition BTree_search :: "'a::linorder \<Rightarrow> 'a btree \<Rightarrow> bool option" where
  "BTree_search k tr =
     (case root tr of
        None \<Rightarrow> Some False
      | Some r \<Rightarrow> do { res \<leftarrow> BTreeNode_search k r; Some (res \<noteq> None) })"

text \<open>
  \<open>BTree::search\<close> with the tree as the call leaves it: the method is \<open>const\<close>, which
  protects the pointer \<open>root\<close> and the degree, not the node \<open>root\<close> points to.
\<close>

definition BTree_search_st :: "'a::linorder \<Rightarrow> 'a btree \<Rightarrow> (bool \<times> 'a btree) option" where
  "BTree_search_st k tr =
     (case root tr of
        None \<Rightarrow> Some (False, tr)
      | Some r \<Rightarrow> do { res \<leftarrow> BTreeNode_search_st k r;
                       Some (fst res \<noteq> None, tr\<lparr>root := Some (snd res)\<rparr>) })"

definition BTree_insert :: "'a::{linorder,zero} \<Rightarrow> 'a btree \<Rightarrow> 'a btree option" where
  "BTree_insert k tr =
     (case root tr of
        None \<Rightarrow>
          do { r \<leftarrow> new_node (tree_t tr) True;
               ks \<leftarrow> wr (keys r) 0 k;
               Some (tr\<lparr>root := Some (Node (node_t r) (is_leaf r) 1 ks (children r))\<rparr>) }
      | Some r \<Rightarrow>
          do { full \<leftarrow> two_t_minus_1 (tree_t tr);
               if node_n r = full then
                 do { s0 \<leftarrow> new_node (tree_t tr) False;
                      cs \<leftarrow> wr (children s0) 0 (Some r);
                      s \<leftarrow> split_child 0
                             (Node (node_t s0) (is_leaf s0) (node_n s0) (keys s0) cs);
                      m \<leftarrow> rd (keys s) 0;
                      let i = (if m < k then 1 else 0);
                      co \<leftarrow> rd (children s) i;
                      c \<leftarrow> co;
                      c' \<leftarrow> insert_non_full k c;
                      cs' \<leftarrow> wr (children s) i (Some c');
                      Some (tr\<lparr>root :=
                              Some (Node (node_t s) (is_leaf s) (node_n s) (keys s) cs')\<rparr>) }
               else
                 do { r' \<leftarrow> insert_non_full k r;
                      Some (tr\<lparr>root := Some r'\<rparr>) } })"

text \<open>A run of \<open>insert\<close> calls, in the order of the list.\<close>

fun insert_all :: "'a::{linorder,zero} list \<Rightarrow> 'a btree \<Rightarrow> 'a btree option" where
  "insert_all [] tr = Some tr"
| "insert_all (k # ks) tr = do { tr' \<leftarrow> BTree_insert k tr; insert_all ks tr' }"

section \<open>What a node holds\<close>

text \<open>
  A node holds its first \<open>n\<close> keys and, when it is internal, its first \<open>n + 1\<close> child
  slots: the slots behind them are capacity, with stale or null contents.
\<close>

definition node_keys :: "'a node \<Rightarrow> 'a list" where
  "node_keys nd = take (nat (node_n nd)) (keys nd)"

definition node_children :: "'a node \<Rightarrow> 'a node option list" where
  "node_children nd = take (nat (node_n nd + 1)) (children nd)"

section \<open>Notions used to state the properties\<close>

subsection \<open>The in-order list of a subtree\<close>

text \<open>
  \<open>interleave cs ks\<close> puts the key \<open>ks[i]\<close> between the lists \<open>cs[i]\<close> and \<open>cs[i + 1]\<close>:
  the order in which \<open>traverse\<close> visits the children and the keys of an internal node. A
  leaf has no child lists, only keys.
\<close>

fun interleave :: "'a list list \<Rightarrow> 'a list \<Rightarrow> 'a list" where
  "interleave [] ks = ks"
| "interleave (c # cs) [] = c"
| "interleave (c # cs) (k # ks) = c @ k # interleave cs ks"

lemma node_children_height:
  assumes "co \<in> set (node_children nd)" and "co = Some c" and "\<not> is_leaf nd"
  shows "height c < height nd"
proof -
  from assms(1) have "co \<in> set (children nd)"
    by (auto simp: node_children_def dest: in_set_takeD)
  then obtain j where "j < length (children nd)" "children nd ! j = co"
    by (auto simp: in_set_conv_nth)
  with assms(2) have "rd (children nd) (int j) = Some (Some c)" by (simp add: rd_def)
  from height_child [OF this assms(3)] show ?thesis .
qed

text \<open>
  \<open>inorder nd\<close> is the list that \<open>BTreeNode::traverse\<close> prints on a node whose indices
  stay inside its arrays (lemma \<open>traverse_wf\<close> below): a total function, where the
  method itself may be undefined.
\<close>

function inorder :: "'a node \<Rightarrow> 'a list" where
  "inorder nd =
     (if is_leaf nd then node_keys nd
      else interleave (map (\<lambda>co. case co of None \<Rightarrow> [] | Some c \<Rightarrow> inorder c) (node_children nd))
             (node_keys nd))"
  by pat_completeness auto
termination
  by (relation "measure height") (auto intro: node_children_height)

declare inorder.simps [simp del]

abbreviation sub_inorder :: "'a node option \<Rightarrow> 'a list" where
  "sub_inorder \<equiv> (\<lambda>co. case co of None \<Rightarrow> [] | Some c \<Rightarrow> inorder c)"

definition tree_inorder :: "'a btree \<Rightarrow> 'a list" where
  "tree_inorder tr = (case root tr of None \<Rightarrow> [] | Some r \<Rightarrow> inorder r)"

subsection \<open>The nodes and the keys of a subtree\<close>

text \<open>
  \<open>nodes_of nd\<close> lists the node \<open>nd\<close>, first, and then every node below it, through every
  non-null pointer of an internal node. \<open>subtree_keys nd\<close> are the keys these nodes hold.
\<close>

function nodes_of :: "'a node \<Rightarrow> 'a node list" where
  "nodes_of nd =
     nd # (if is_leaf nd then []
           else concat (map (\<lambda>co. case co of None \<Rightarrow> [] | Some c \<Rightarrow> nodes_of c) (children nd)))"
  by pat_completeness auto
termination
proof (relation "measure height")
  fix nd :: "'a node" and co c
  assume "\<not> is_leaf nd" "co \<in> set (children nd)" "co = Some c"
  then obtain j where "j < length (children nd)" "children nd ! j = Some c"
    by (auto simp: in_set_conv_nth)
  then have "rd (children nd) (int j) = Some (Some c)" by (simp add: rd_def)
  from height_child [OF this \<open>\<not> is_leaf nd\<close>] show "(c, nd) \<in> measure height" by simp
qed simp

declare nodes_of.simps [simp del]

definition subtree_keys :: "'a node \<Rightarrow> 'a list" where
  "subtree_keys nd = concat (map node_keys (nodes_of nd))"

text \<open>
  \<open>child_bounds lt p\<close>: for every child slot \<open>i \<le> n\<close> of \<open>p\<close> that holds a node, every
  key \<open>x\<close> of that subtree has \<open>lt x keys[i]\<close> when \<open>i < n\<close>, and \<open>lt keys[i - 1] x\<close> when
  \<open>i > 0\<close>. The relation \<open>lt\<close> is \<open><\<close> or \<open>\<le>\<close>.
\<close>

definition child_bounds :: "('a \<Rightarrow> 'a \<Rightarrow> bool) \<Rightarrow> 'a node \<Rightarrow> bool" where
  "child_bounds lt p =
     list_all (\<lambda>i. case rd (children p) (int i) of
                      Some (Some c) \<Rightarrow>
                        list_all (\<lambda>x. (int i < node_n p \<longrightarrow> lt x (keys p ! i)) \<and>
                                      (0 < i \<longrightarrow> lt (keys p ! (i - 1)) x))
                          (subtree_keys c)
                    | _ \<Rightarrow> True)
       [0..<nat (node_n p + 1)]"

subsection \<open>Well-formed nodes\<close>

text \<open>
  \<open>wf_node t h nd\<close>: the subtree of \<open>nd\<close> has height \<open>h\<close> with all leaves at the same
  depth; every node in it has degree \<open>t\<close>, the array sizes of the constructor and
  \<open>0 \<le> n \<le> 2t - 1\<close>; a leaf has only null pointers; an internal node has nodes in its
  first \<open>n + 1\<close> child slots, each with at least \<open>t - 1\<close> keys, and null pointers behind
  them. The root itself may hold fewer than \<open>t - 1\<close> keys.
\<close>

fun wf_node :: "int \<Rightarrow> nat \<Rightarrow> 'a node \<Rightarrow> bool" where
  "wf_node t 0 nd = False"
| "wf_node t (Suc h) nd =
     (node_t nd = t \<and> length (keys nd) = nat (2 * t - 1) \<and>
      length (children nd) = nat (2 * t) \<and> 0 \<le> node_n nd \<and> node_n nd \<le> 2 * t - 1 \<and>
      (if is_leaf nd then h = 0 \<and> list_all (\<lambda>co. co = None) (children nd)
       else list_all (\<lambda>co. case co of None \<Rightarrow> False
                             | Some c \<Rightarrow> wf_node t h c \<and> t - 1 \<le> node_n c) (node_children nd) \<and>
            list_all (\<lambda>co. co = None) (drop (nat (node_n nd + 1)) (children nd))))"

definition tree_wf :: "nat \<Rightarrow> 'a btree \<Rightarrow> bool" where
  "tree_wf t tr \<longleftrightarrow>
     tree_t tr = int t \<and> (case root tr of None \<Rightarrow> True | Some r \<Rightarrow> wf_node (int t) (height r) r)"

subsection \<open>The two halves of a split node\<close>

text \<open>
  The node \<open>y\<close> and the new node \<open>z\<close> as \<open>split_child\<close> leaves them, in closed form
  (lemma \<open>split_child_closed\<close> below): \<open>y\<close> keeps its key array and its first \<open>t\<close> child
  pointers, \<open>z\<close> gets the keys \<open>t .. 2t - 2\<close> and the child pointers \<open>t .. 2t - 1\<close> of \<open>y\<close> in
  front of the values of the constructor.
\<close>

definition split_y :: "nat \<Rightarrow> 'a node \<Rightarrow> 'a node" where
  "split_y t y =
     Node (node_t y) (is_leaf y) (int t - 1) (keys y)
       (if is_leaf y then children y
        else take t (children y) @ replicate t None @ drop (2 * t) (children y))"

definition split_z :: "nat \<Rightarrow> ('a::zero) node \<Rightarrow> 'a node" where
  "split_z t y =
     Node (node_t y) (is_leaf y) (int t - 1) (take (t - 1) (drop t (keys y)) @ replicate t 0)
       (if is_leaf y then replicate (2 * t) None
        else take t (drop t (children y)) @ replicate t None)"

subsection \<open>Operations as steps\<close>

text \<open>
  The operations of the tree as steps on its state. The tree after \<open>insert\<close> and
  after \<open>search\<close> is the one these methods hand back. \<open>BTree::traverse\<close> and
  \<open>BTreeNode::traverse\<close> are \<open>const\<close> methods that call only each other, on a class
  without \<open>mutable\<close> members and without casts: the tree after them is the tree
  before.
\<close>

datatype 'a operation = Insert 'a | Search 'a | Traverse

datatype 'a outcome = Inserted | Found bool | Keys "'a list"

fun run_op :: "'a::{linorder,zero} operation \<Rightarrow> 'a btree \<Rightarrow> ('a outcome \<times> 'a btree) option" where
  "run_op (Insert k) tr = do { tr' \<leftarrow> BTree_insert k tr; Some (Inserted, tr') }"
| "run_op (Search k) tr = do { r \<leftarrow> BTree_search_st k tr; Some (Found (fst r), snd r) }"
| "run_op Traverse tr = do { xs \<leftarrow> BTree_traverse tr; Some (Keys xs, tr) }"

fun run_ops ::
  "'a::{linorder,zero} operation list \<Rightarrow> 'a btree \<Rightarrow> ('a outcome list \<times> 'a btree) option"
where
  "run_ops [] tr = Some ([], tr)"
| "run_ops (op # ops) tr =
     do { r \<leftarrow> run_op op tr;
          rs \<leftarrow> run_ops ops (snd r);
          Some (fst r # fst rs, snd rs) }"

section \<open>The loops in closed form\<close>

text \<open>
  Each loop of the source, run on indices that stay inside the arrays, returns the array
  written with \<open>take\<close> and \<open>drop\<close>. The indices are natural numbers here; the source's
  \<open>int\<close> index is their image.
\<close>

text \<open>On a degree \<open>t\<close> with \<open>2 * t \<le> INT_MAX\<close> the expressions \<open>2 * t\<close> and \<open>2 * t - 1\<close> have their values.\<close>

lemma two_t_nat:
  assumes "0 < t" and "2 * int t \<le> INT_MAX"
  shows "two_t_minus_1 (int t) = Some (2 * int t - 1)"
    and "int_val (2 * int t) = Some (2 * int t)"
  using assms by (simp_all add: two_t_minus_1_def int_val_def INT_MAX_def INT_MIN_def)

lemma rd_nat: "i < length xs \<Longrightarrow> rd xs (int i) = Some (xs ! i)"
  by (simp add: rd_def)

lemma wr_nat: "i < length xs \<Longrightarrow> wr xs (int i) v = Some (xs[i := v])"
  by (simp add: wr_def)

lemma copy_keys_closed:
  assumes "t + (t - 1) \<le> length yk" and "t - 1 \<le> length zk" and "j \<le> t - 1"
    and "0 < t"
  shows "copy_keys (int t) yk zk (int j) =
         Some (take j zk @ take (t - 1 - j) (drop (t + j) yk) @ drop (t - 1) zk)"
  using assms
proof (induction "t - 1 - j" arbitrary: j zk)
  case 0
  then have "j = t - 1" by simp
  with 0 have "\<not> int j < int t - 1" by linarith
  with \<open>j = t - 1\<close> show ?case
    by (subst copy_keys.simps) simp
next
  case (Suc d)
  then have lt: "j < t - 1" by simp
  let ?v = "yk ! (j + t)"
  let ?zk = "zk[j := ?v]"
  have r: "rd yk (int j + int t) = Some ?v"
    using rd_nat [of "j + t" yk] Suc.prems lt by simp
  have w: "wr zk (int j) ?v = Some ?zk"
    using wr_nat [of j zk] Suc.prems lt by simp
  have ih: "copy_keys (int t) yk ?zk (int (Suc j)) =
         Some (take (Suc j) ?zk @ take (t - 1 - Suc j) (drop (t + Suc j) yk) @ drop (t - 1) ?zk)"
    using Suc.hyps(1) [of "Suc j" ?zk] Suc.hyps(2) Suc.prems lt by simp
  have a: "take (Suc j) ?zk = take j zk @ [?v]"
    using Suc.prems lt by (simp add: take_Suc_conv_app_nth)
  have b: "take (t - 1 - j) (drop (t + j) yk) = ?v # take (t - 1 - Suc j) (drop (t + Suc j) yk)"
  proof -
    have "t + j < length yk" using Suc.prems lt by simp
    then have "drop (t + j) yk = yk ! (t + j) # drop (Suc (t + j)) yk"
      by (simp add: Cons_nth_drop_Suc)
    moreover have "t - 1 - j = Suc (t - 1 - Suc j)" using lt by simp
    ultimately show ?thesis by (simp add: add.commute)
  qed
  have c: "drop (t - 1) ?zk = drop (t - 1) zk"
    using lt by simp
  have lt': "int j < int t - 1" using lt by linarith
  show ?case
    apply (subst copy_keys.simps)
    using lt' r w ih a b c by (simp add: add.commute)
qed


lemma shift_step_eq:
  assumes ge: "lo \<le> j" and len: "Suc j < length xs"
  shows "take (Suc lo) (xs[Suc j := xs ! j]) @ take (j - lo) (drop lo (xs[Suc j := xs ! j])) @
           drop (Suc j) (xs[Suc j := xs ! j]) =
         take (Suc lo) xs @ take (Suc j - lo) (drop lo xs) @ drop (Suc (Suc j)) xs"
proof -
  let ?v = "xs ! j"
  let ?xs = "xs[Suc j := ?v]"
  have a: "take (Suc lo) ?xs = take (Suc lo) xs"
    using ge by simp
  have b: "take (j - lo) (drop lo ?xs) = take (j - lo) (drop lo xs)"
    using ge by (simp add: drop_update_swap)
  have c: "drop (Suc j) ?xs = ?v # drop (Suc (Suc j)) xs"
  proof -
    have "?xs ! (Suc j) # drop (Suc (Suc j)) ?xs = drop (Suc j) ?xs"
      using len by (intro Cons_nth_drop_Suc) simp
    with len show ?thesis by simp
  qed
  have d: "take (Suc j - lo) (drop lo xs) = take (j - lo) (drop lo xs) @ [?v]"
  proof -
    have "Suc j - lo = Suc (j - lo)" using ge by simp
    moreover have "j - lo < length (drop lo xs)" using ge len by simp
    moreover have "drop lo xs ! (j - lo) = ?v" using ge len by simp
    ultimately show ?thesis by (simp add: take_Suc_conv_app_nth)
  qed
  show ?thesis using a b c d by simp
qed

lemma shift_right_closed:
  assumes "lo \<le> j1" and "j1 < length xs"
  shows "shift_right xs (int lo) (int j1 - 1) =
         Some (take (Suc lo) xs @ take (j1 - lo) (drop lo xs) @ drop (Suc j1) xs)"
  using assms
proof (induction "j1 - lo" arbitrary: j1 xs)
  case 0
  then have "j1 = lo" by simp
  then show ?case
    by (subst shift_right.simps) simp
next
  case (Suc d)
  then obtain j where j1: "j1 = Suc j" and ge: "lo \<le> j"
    by (cases j1) auto
  let ?v = "xs ! j"
  let ?xs = "xs[Suc j := ?v]"
  have r: "rd xs (int j) = Some ?v"
    using rd_nat [of j xs] Suc.prems j1 by simp
  have w: "wr xs (int j + 1) ?v = Some ?xs"
    using wr_nat [of "Suc j" xs ?v] Suc.prems j1 by (simp add: add.commute)
  have ih: "shift_right ?xs (int lo) (int j - 1) =
         Some (take (Suc lo) ?xs @ take (j - lo) (drop lo ?xs) @ drop (Suc j) ?xs)"
    using Suc.hyps(1) [of j ?xs] Suc.hyps(2) Suc.prems j1 ge by simp
  have eq: "take (Suc lo) ?xs @ take (j - lo) (drop lo ?xs) @ drop (Suc j) ?xs =
         take (Suc lo) xs @ take (Suc j - lo) (drop lo xs) @ drop (Suc (Suc j)) xs"
    using shift_step_eq [OF ge] Suc.prems j1 by simp
  have ge': "int lo \<le> int j" using ge by simp
  have "shift_right xs (int lo) (int j) =
         Some (take (Suc lo) xs @ take (Suc j - lo) (drop lo xs) @ drop (Suc (Suc j)) xs)"
    apply (subst shift_right.simps)
    using ge' r w ih eq by simp
  then show ?case using j1 by simp
qed

lemma move_children_closed:
  assumes "2 * t \<le> length yc" and "t \<le> length zc" and "j \<le> t"
  shows "move_children (int t) zc yc (int j) =
         Some (take j zc @ take (t - j) (drop (t + j) yc) @ drop t zc,
               take (t + j) yc @ replicate (t - j) None @ drop (2 * t) yc)"
  using assms
proof (induction "t - j" arbitrary: j zc yc)
  case 0
  then have "j = t" by simp
  then show ?case
    by (subst move_children.simps) (simp add: mult_2)
next
  case (Suc d)
  then have lt: "j < t" by simp
  let ?c = "yc ! (j + t)"
  let ?zc = "zc[j := ?c]"
  let ?yc = "yc[j + t := None]"
  have r: "rd yc (int j + int t) = Some ?c"
    using rd_nat [of "j + t" yc] Suc.prems lt by simp
  have w1: "wr zc (int j) ?c = Some ?zc"
    using wr_nat [of j zc] Suc.prems lt by simp
  have w2: "wr yc (int j + int t) None = Some ?yc"
    using wr_nat [of "j + t" yc] Suc.prems lt by simp
  have ih: "move_children (int t) ?zc ?yc (int (Suc j)) =
         Some (take (Suc j) ?zc @ take (t - Suc j) (drop (t + Suc j) ?yc) @ drop t ?zc,
               take (t + Suc j) ?yc @ replicate (t - Suc j) None @ drop (2 * t) ?yc)"
    using Suc.hyps(1) [of "Suc j" ?yc ?zc] Suc.hyps(2) Suc.prems lt by simp
  have a: "take (Suc j) ?zc = take j zc @ [?c]"
    using Suc.prems lt by (simp add: take_Suc_conv_app_nth)
  have b: "take (t - j) (drop (t + j) yc) = ?c # take (t - Suc j) (drop (t + Suc j) ?yc)"
  proof -
    have "t + j < length yc" using Suc.prems lt by simp
    then have "drop (t + j) yc = yc ! (t + j) # drop (Suc (t + j)) yc"
      by (simp add: Cons_nth_drop_Suc)
    moreover have "t - j = Suc (t - Suc j)" using lt by simp
    ultimately show ?thesis by (simp add: add.commute)
  qed
  have c: "drop t ?zc = drop t zc"
    using lt by simp
  have d: "take (t + Suc j) ?yc = take (t + j) yc @ [None]"
    using Suc.prems lt by (simp add: take_Suc_conv_app_nth add.commute)
  have e: "drop (2 * t) ?yc = drop (2 * t) yc"
    using lt by simp
  have f: "replicate (t - j) None = (None :: 'a option) # replicate (t - Suc j) None"
  proof -
    have "t - j = Suc (t - Suc j)" using lt by simp
    then show ?thesis by (simp only: replicate_Suc)
  qed
  have lt': "int j < int t" using lt by simp
  show ?case
    apply (subst move_children.simps)
    using lt' r w1 w2 ih a b c d e f by (simp add: add.commute)
qed


lemma leaf_shift_closed:
  assumes "i1 < length ks"
  shows "\<exists>j1\<le>i1. leaf_shift k ks (int i1 - 1) =
           Some (take (Suc j1) ks @ take (i1 - j1) (drop j1 ks) @ drop (Suc i1) ks, int j1 - 1) \<and>
         (0 < j1 \<longrightarrow> ks ! (j1 - 1) \<le> k) \<and> (\<forall>m. j1 \<le> m \<and> m < i1 \<longrightarrow> k < ks ! m)"
  using assms
proof (induction i1 arbitrary: ks)
  case 0
  have "leaf_shift k ks (int 0 - 1) = Some (ks, int 0 - 1)"
    by (subst leaf_shift.simps) simp
  then show ?case
    by (intro exI [of _ 0]) simp
next
  case (Suc i)
  have r: "rd ks (int i) = Some (ks ! i)"
    using rd_nat [of i ks] Suc.prems by simp
  show ?case
  proof (cases "k < ks ! i")
    case True
    let ?ks = "ks[Suc i := ks ! i]"
    have w: "wr ks (int i + 1) (ks ! i) = Some ?ks"
      using wr_nat [of "Suc i" ks "ks ! i"] Suc.prems by (simp add: add.commute)
    from Suc.IH [of ?ks] Suc.prems obtain j1 where j1: "j1 \<le> i"
      and res: "leaf_shift k ?ks (int i - 1) =
           Some (take (Suc j1) ?ks @ take (i - j1) (drop j1 ?ks) @ drop (Suc i) ?ks, int j1 - 1)"
      and le: "0 < j1 \<longrightarrow> ?ks ! (j1 - 1) \<le> k"
      and gt: "\<forall>m. j1 \<le> m \<and> m < i \<longrightarrow> k < ?ks ! m"
      by auto
    have step: "leaf_shift k ks (int i) = leaf_shift k ?ks (int i - 1)"
      apply (subst leaf_shift.simps)
      using r w True by simp
    have eq: "take (Suc j1) ?ks @ take (i - j1) (drop j1 ?ks) @ drop (Suc i) ?ks =
              take (Suc j1) ks @ take (Suc i - j1) (drop j1 ks) @ drop (Suc (Suc i)) ks"
      using shift_step_eq [OF j1 Suc.prems] .
    have le': "0 < j1 \<longrightarrow> ks ! (j1 - 1) \<le> k"
      using le j1 by auto
    have gt': "\<forall>m. j1 \<le> m \<and> m < Suc i \<longrightarrow> k < ks ! m"
    proof (intro allI impI)
      fix m assume m: "j1 \<le> m \<and> m < Suc i"
      show "k < ks ! m"
      proof (cases "m = i")
        case True
        with \<open>k < ks ! i\<close> show ?thesis by simp
      next
        case False
        with m gt have "k < ?ks ! m" by auto
        with m show ?thesis by simp
      qed
    qed
    show ?thesis
      apply (intro exI [of _ j1])
      using j1 step res eq le' gt' by simp
  next
    case False
    have "leaf_shift k ks (int i) = Some (ks, int i)"
      apply (subst leaf_shift.simps)
      using r False by simp
    with False show ?thesis
      by (intro exI [of _ "Suc i"]) auto
  qed
qed

lemma find_child_closed:
  assumes "i1 \<le> length ks"
  shows "\<exists>j1\<le>i1. find_child k ks (int i1 - 1) = Some (int j1 - 1) \<and>
         (0 < j1 \<longrightarrow> ks ! (j1 - 1) \<le> k) \<and> (\<forall>m. j1 \<le> m \<and> m < i1 \<longrightarrow> k < ks ! m)"
  using assms
proof (induction i1)
  case 0
  have "find_child k ks (int 0 - 1) = Some (int 0 - 1)"
    by (subst find_child.simps) simp
  then show ?case
    by (intro exI [of _ 0]) simp
next
  case (Suc i)
  have r: "rd ks (int i) = Some (ks ! i)"
    using rd_nat [of i ks] Suc.prems by simp
  show ?case
  proof (cases "k < ks ! i")
    case True
    from Suc obtain j1 where j1: "j1 \<le> i"
      and res: "find_child k ks (int i - 1) = Some (int j1 - 1)"
      and le: "0 < j1 \<longrightarrow> ks ! (j1 - 1) \<le> k"
      and gt: "\<forall>m. j1 \<le> m \<and> m < i \<longrightarrow> k < ks ! m"
      by auto
    have step: "find_child k ks (int i) = find_child k ks (int i - 1)"
      apply (subst find_child.simps)
      using r True by simp
    have gt': "\<forall>m. j1 \<le> m \<and> m < Suc i \<longrightarrow> k < ks ! m"
      using gt True by (auto simp: less_Suc_eq)
    show ?thesis
      apply (intro exI [of _ j1])
      using j1 step res le gt' by simp
  next
    case False
    have "find_child k ks (int i) = Some (int i)"
      apply (subst find_child.simps)
      using r False by simp
    with False show ?thesis
      by (intro exI [of _ "Suc i"]) auto
  qed
qed

lemma search_scan_closed:
  assumes "node_n nd = int n" and "n \<le> length (keys nd)" and "i \<le> n"
  shows "\<exists>i'. i \<le> i' \<and> i' \<le> n \<and> search_scan k nd (int i) = Some (int i') \<and>
         (\<forall>m. i \<le> m \<and> m < i' \<longrightarrow> keys nd ! m < k) \<and> (i' < n \<longrightarrow> k \<le> keys nd ! i')"
  using assms
proof (induction "n - i" arbitrary: i)
  case 0
  then have "search_scan k nd (int i) = Some (int i)"
    by (subst search_scan.simps) simp
  with 0 show ?case
    by (intro exI [of _ i]) auto
next
  case (Suc d)
  then have lt: "i < n" by simp
  have r: "rd (keys nd) (int i) = Some (keys nd ! i)"
    using rd_nat [of i "keys nd"] Suc.prems lt by simp
  show ?case
  proof (cases "keys nd ! i < k")
    case True
    have d: "d = n - Suc i" using Suc.hyps(2) by simp
    have le: "Suc i \<le> n" using lt by simp
    from Suc.hyps(1) [OF d Suc.prems(1) Suc.prems(2) le] obtain i' where
      i': "Suc i \<le> i'" "i' \<le> n" and res: "search_scan k nd (int (Suc i)) = Some (int i')"
      and lo: "\<forall>m. Suc i \<le> m \<and> m < i' \<longrightarrow> keys nd ! m < k"
      and hi: "i' < n \<longrightarrow> k \<le> keys nd ! i'"
      by blast
    have step: "search_scan k nd (int i) = search_scan k nd (int (Suc i))"
      apply (subst search_scan.simps)
      using r True lt Suc.prems by (simp add: add.commute)
    have lo': "\<forall>m. i \<le> m \<and> m < i' \<longrightarrow> keys nd ! m < k"
    proof (intro allI impI)
      fix m assume "i \<le> m \<and> m < i'"
      then show "keys nd ! m < k"
        using lo True by (cases "m = i") auto
    qed
    show ?thesis
      apply (intro exI [of _ i'])
      using i' step res lo' hi by simp
  next
    case False
    have "search_scan k nd (int i) = Some (int i)"
      apply (subst search_scan.simps)
      using r False lt Suc.prems by simp
    with False lt show ?thesis
      by (intro exI [of _ i]) auto
  qed
qed

section \<open>split_child in closed form\<close>

lemma update_take_Suc_append:
  "i < length xs \<Longrightarrow> (take (Suc i) xs @ rest)[i := v] = take i xs @ v # rest"
  by (simp add: take_Suc_conv_app_nth list_update_append)

lemma split_child_closed:
  assumes t: "0 < t" and tb: "2 * int t \<le> INT_MAX"
    and pt: "node_t p = int t" and pn: "node_n p = int n"
    and i: "i \<le> n" and lc: "n + 1 < length (children p)" and lk: "n < length (keys p)"
    and y: "children p ! i = Some y" and yt: "node_t y = int t"
    and yk: "2 * t - 1 \<le> length (keys y)"
    and yc: "\<not> is_leaf y \<Longrightarrow> 2 * t \<le> length (children y)"
  shows "split_child (int i) p =
     Some (Node (int t) (is_leaf p) (int n + 1)
       (take i (keys p) @ [keys y ! (t - 1)] @ take (n - i) (drop i (keys p)) @
          drop (Suc n) (keys p))
       (take i (children p) @ [Some (split_y t y), Some (split_z t y)] @
          take (n - i) (drop (Suc i) (children p)) @ drop (n + 2) (children p)))"
proof -
  let ?z0 = "Node (int t) (is_leaf y) 0 (replicate (2 * t - 1) (0::'a)) (replicate (2 * t) None)"
  have n1: "nat (2 * int t - 1) = 2 * t - 1" using t by linarith
  have n2: "nat (2 * int t) = 2 * t" by linarith
  have s1: "rd (children p) (int i) = Some (Some y)"
    using rd_nat [of i "children p"] i lc y by simp
  have s2: "new_node (node_t y) (is_leaf y) = Some ?z0"
    using t by (simp add: new_node_def yt two_t_nat [OF t tb] n1 n2)
  have s3: "copy_keys (int t) (keys y) (replicate (2 * t - 1) 0) 0 =
            Some (take (t - 1) (drop t (keys y)) @ replicate t 0)"
  proof -
    have "2 * t - 1 - (t - 1) = t" using t by simp
    then show ?thesis
      using copy_keys_closed [of t "keys y" "replicate (2 * t - 1) 0" 0] t yk by simp
  qed
  have s4: "\<not> is_leaf y \<Longrightarrow>
            move_children (int t) (replicate (2 * t) None) (children y) 0 =
            Some (take t (drop t (children y)) @ replicate t None,
                  take t (children y) @ replicate t None @ drop (2 * t) (children y))"
    using move_children_closed [of t "children y" "replicate (2 * t) None" 0] yc by simp
  have zy: "(if \<not> is_leaf y
              then move_children (int t) (replicate (2 * t) None) (children y) 0
              else Some (replicate (2 * t) None, children y)) =
            Some (children (split_z t y), children (split_y t y))"
    using s4 by (simp add: split_z_def split_y_def)
  have ynode: "Node (node_t y) (is_leaf y) (int t - 1) (keys y) (children (split_y t y)) =
               split_y t y"
    by (simp add: split_y_def)
  have znode: "Node (node_t y) (is_leaf y) (int t - 1)
                 (take (t - 1) (drop t (keys y)) @ replicate t 0) (children (split_z t y)) =
               split_z t y"
    by (simp add: split_z_def)
  let ?cs0 = "(children p)[i := Some (split_y t y)]"
  have s5: "wr (children p) (int i) (Some (split_y t y)) = Some ?cs0"
    using wr_nat [of i "children p"] i lc by simp
  let ?cs1 = "take (Suc (Suc i)) ?cs0 @ take (n - i) (drop (Suc i) ?cs0) @ drop (Suc (Suc n)) ?cs0"
  have s6: "shift_right ?cs0 (int i + 1) (int n) = Some ?cs1"
    using shift_right_closed [of "Suc i" "Suc n" ?cs0] i lc by (simp add: add.commute)
  let ?cs2 = "take i (children p) @ [Some (split_y t y), Some (split_z t y)] @
          take (n - i) (drop (Suc i) (children p)) @ drop (n + 2) (children p)"
  have cs2: "?cs1[Suc i := Some (split_z t y)] = ?cs2"
  proof -
    have "Suc i < length ?cs0" using i lc by simp
    then have "?cs1[Suc i := Some (split_z t y)] =
          take (Suc i) ?cs0 @ Some (split_z t y) #
            take (n - i) (drop (Suc i) ?cs0) @ drop (Suc (Suc n)) ?cs0"
      by (rule update_take_Suc_append)
    moreover have "take (Suc i) ?cs0 = take i (children p) @ [Some (split_y t y)]"
      using i lc by (simp add: take_Suc_conv_app_nth)
    moreover have "drop (Suc i) ?cs0 = drop (Suc i) (children p)" by simp
    moreover have "drop (Suc (Suc n)) ?cs0 = drop (Suc (Suc n)) (children p)"
      using i by simp
    ultimately show ?thesis by simp
  qed
  have s7: "wr ?cs1 (int i + 1) (Some (split_z t y)) = Some ?cs2"
  proof -
    have "Suc i < length ?cs1" using i lc by simp
    from wr_nat [OF this, of "Some (split_z t y)"] cs2 show ?thesis
      by (simp add: add.commute)
  qed
  let ?ks1 = "take (Suc i) (keys p) @ take (n - i) (drop i (keys p)) @ drop (Suc n) (keys p)"
  have s8: "shift_right (keys p) (int i) (int n - 1) = Some ?ks1"
    using shift_right_closed [of i n "keys p"] i lk by simp
  have s9: "rd (keys y) (int t - 1) = Some (keys y ! (t - 1))"
  proof -
    have idx: "int t - 1 = int (t - 1)" using t by linarith
    have "t - 1 < length (keys y)" using t yk by linarith
    then have "rd (keys y) (int (t - 1)) = Some (keys y ! (t - 1))" by (rule rd_nat)
    then show ?thesis by (simp only: idx)
  qed
  let ?ks2 = "take i (keys p) @ [keys y ! (t - 1)] @ take (n - i) (drop i (keys p)) @
          drop (Suc n) (keys p)"
  have s10: "wr ?ks1 (int i) (keys y ! (t - 1)) = Some ?ks2"
  proof -
    have "i < length (keys p)" using i lk by simp
    from update_take_Suc_append [OF this] have "?ks1[i := keys y ! (t - 1)] = ?ks2" by simp
    moreover have "i < length ?ks1" using i lk by simp
    ultimately show ?thesis using wr_nat [of i ?ks1] by simp
  qed
  show ?thesis
    unfolding split_child_def
    by (simp only: s1 s2 s3 zy s5 s6 s7 s8 s9 s10 pt pn Option.bind.bind_lunit Let_def
          node.sel fst_conv snd_conv ynode znode)
qed

section \<open>Well-formed nodes and the traversal\<close>

lemma drop_take_Cons:
  assumes "i < n" and "i < length xs"
  shows "drop i (take n xs) = xs ! i # drop (Suc i) (take n xs)"
proof -
  from assms have "i < length (take n xs)" by simp
  from Cons_nth_drop_Suc [OF this] assms show ?thesis by simp
qed

lemma wf_Suc_iff:
  assumes "0 < t" and "node_n nd = int n"
  shows "wf_node (int t) (Suc h) nd \<longleftrightarrow>
     node_t nd = int t \<and> length (keys nd) = 2 * t - 1 \<and> length (children nd) = 2 * t \<and>
     n \<le> 2 * t - 1 \<and>
     (if is_leaf nd then h = 0 \<and> (\<forall>co\<in>set (children nd). co = None)
      else (\<forall>co\<in>set (take (Suc n) (children nd)).
              \<exists>c. co = Some c \<and> wf_node (int t) h c \<and> int t - 1 \<le> node_n c) \<and>
           (\<forall>co\<in>set (drop (Suc n) (children nd)). co = None))"
proof -
  have n1: "nat (2 * int t - 1) = 2 * t - 1" using assms(1) by linarith
  have n2: "nat (2 * int t) = 2 * t" by linarith
  have n3: "nat (int n + 1) = Suc n" by linarith
  have n4: "int n \<le> 2 * int t - 1 \<longleftrightarrow> n \<le> 2 * t - 1" using assms(1) by linarith
  have c: "(case co of None \<Rightarrow> False | Some c \<Rightarrow> wf_node (int t) h c \<and> int t - 1 \<le> node_n c) \<longleftrightarrow>
           (\<exists>c. co = Some c \<and> wf_node (int t) h c \<and> int t - 1 \<le> node_n c)" for co :: "'a node option"
    by (cases co) auto
  show ?thesis
    unfolding wf_node.simps assms(2) n1 n2 n3 n4 node_children_def list_all_iff
    by (auto split: option.splits)
qed

lemma wf_n:
  assumes "wf_node (int t) h nd"
  obtains h' n where "h = Suc h'" and "node_n nd = int n"
proof -
  from assms obtain h' where h: "h = Suc h'" by (cases h) auto
  with assms have "0 \<le> node_n nd" by simp
  then obtain n where "node_n nd = int n" using nonneg_int_cases by blast
  with h that show ?thesis by blast
qed

declare wf_node.simps(2) [simp del]

lemma traverse_loop_wf:
  assumes t: "0 < t"
  shows "wf_node (int t) h nd \<Longrightarrow> node_n nd = int n \<Longrightarrow> i \<le> n \<Longrightarrow>
     traverse_loop nd (int i) =
       Some (if is_leaf nd then drop i (node_keys nd)
             else interleave (drop i (map sub_inorder (node_children nd))) (drop i (node_keys nd)))"
proof (induction h arbitrary: nd n i)
  case 0
  then show ?case by simp
next
  case (Suc h)
  note wf = Suc.prems(1) [unfolded wf_Suc_iff [OF t Suc.prems(2)]]
  from wf t have lens: "length (keys nd) = 2 * t - 1" "length (children nd) = 2 * t"
    "n \<le> 2 * t - 1" "n < 2 * t"
    by auto
  have nk: "node_keys nd = take n (keys nd)"
    by (simp add: node_keys_def Suc.prems(2))
  have "nat (int n + 1) = Suc n" by linarith
  then have nc: "node_children nd = take (Suc n) (children nd)"
    by (simp only: node_children_def Suc.prems(2))
  have child: "traverse_loop c 0 = Some (inorder c)"
    if "co \<in> set (take (Suc n) (children nd))" "co = Some c" "\<not> is_leaf nd" for co c
  proof -
    from wf that have wc: "wf_node (int t) h c" by auto
    then obtain nc where "node_n c = int nc" by (rule wf_n)
    from Suc.IH [OF wc this, of 0] show ?thesis
      by (simp add: inorder.simps [of c])
  qed
  have visit: "(do { co \<leftarrow> rd (children nd) (int j);
                    case co of None \<Rightarrow> Some [] | Some c \<Rightarrow> traverse_loop c 0 }) =
               Some (sub_inorder (children nd ! j))"
    if "j \<le> n" "\<not> is_leaf nd" for j
  proof -
    from lens that have len: "j < length (children nd)" by simp
    then have "children nd ! j \<in> set (take (Suc n) (children nd))"
      using that by (auto simp: in_set_conv_nth intro!: exI [of _ j])
    with wf that obtain c where c: "children nd ! j = Some c" by auto
    with child [OF \<open>children nd ! j \<in> _\<close> c that(2)] rd_nat [OF len] show ?thesis by simp
  qed
  show ?case using Suc.prems(3)
  proof (induction "n - i" arbitrary: i)
    case 0
    then have i: "i = n" by simp
    show ?case
    proof (cases "is_leaf nd")
      case True
      then show ?thesis
        by (subst traverse_loop.simps) (simp add: i Suc.prems(2) nk)
    next
      case False
      from lens have "n < length (children nd)" by simp
      then have "drop n (take (Suc n) (children nd)) = [children nd ! n]"
        by (simp add: take_Suc_conv_app_nth)
      with False visit [of n] show ?thesis
        by (subst traverse_loop.simps) (simp add: i Suc.prems(2) nk nc drop_map)
    qed
  next
    case (Suc d)
    then have lt: "i < n" by simp
    from lens lt have lk: "i < length (keys nd)" by simp
    have keys: "drop i (node_keys nd) = keys nd ! i # drop (Suc i) (node_keys nd)"
      using lt lk by (simp add: nk drop_take_Cons)
    have r: "rd (keys nd) (int i) = Some (keys nd ! i)" by (rule rd_nat [OF lk])
    have rest: "traverse_loop nd (int i + 1) =
       Some (if is_leaf nd then drop (Suc i) (node_keys nd)
             else interleave (drop (Suc i) (map sub_inorder (node_children nd)))
                    (drop (Suc i) (node_keys nd)))"
      using Suc.hyps(1) [of "Suc i"] Suc.hyps(2) lt by (simp add: add.commute)
    show ?case
    proof (cases "is_leaf nd")
      case True
      with r rest keys lt show ?thesis
        by (subst traverse_loop.simps) (simp add: \<open>node_n nd = int n\<close>)
    next
      case False
      from lens lt have "i < Suc n" "i < length (children nd)" by simp_all
      then have "drop i (map sub_inorder (node_children nd)) =
          sub_inorder (children nd ! i) # drop (Suc i) (map sub_inorder (node_children nd))"
        by (simp add: nc drop_map drop_take_Cons)
      with False r rest keys lt visit [of i] show ?thesis
        by (subst traverse_loop.simps) (simp add: \<open>node_n nd = int n\<close>)
    qed
  qed
qed

lemma traverse_wf:
  assumes "0 < t" and "wf_node (int t) h nd"
  shows "BTreeNode_traverse nd = Some (inorder nd)"
proof -
  from assms(2) obtain n where "node_n nd = int n" by (rule wf_n)
  from traverse_loop_wf [OF assms this, of 0] show ?thesis
    by (simp add: BTreeNode_traverse_def inorder.simps [of nd])
qed

section \<open>Lists of children and keys, interleaved\<close>

lemma inter_Cons_Nil: "interleave (c # cs) ks = c @ interleave ([] # cs) ks"
  by (cases ks) simp_all

lemma inter_split_child:
  "length cs = Suc (length ks) \<Longrightarrow> j \<le> length ks \<Longrightarrow>
   interleave cs ks = interleave (take j cs) (take j ks) @ cs ! j @ interleave ([] # drop (Suc j) cs) (drop j ks)"
proof (induction j arbitrary: cs ks)
  case 0
  then obtain c cs' where "cs = c # cs'" by (cases cs) auto
  then show ?case using inter_Cons_Nil [of c cs' ks] by simp
next
  case (Suc j)
  then obtain c cs' k ks' where cs: "cs = c # cs'" and ks: "ks = k # ks'"
    by (cases cs; cases ks) auto
  with Suc.prems Suc.IH [of cs' ks'] show ?case by simp
qed

lemma inter_pre_last:
  "0 < j \<Longrightarrow> j \<le> length ks \<Longrightarrow> j \<le> length cs \<Longrightarrow>
   \<exists>xs. interleave (take j cs) (take j ks) = xs @ [ks ! (j - 1)]"
proof (induction j arbitrary: cs ks)
  case 0
  then show ?case by simp
next
  case (Suc j)
  then obtain c cs' k ks' where cs: "cs = c # cs'" and ks: "ks = k # ks'"
    by (cases cs; cases ks) auto
  show ?case
  proof (cases j)
    case 0
    with cs ks show ?thesis by simp
  next
    case (Suc j')
    with Suc.IH [of ks' cs'] Suc.prems cs ks obtain xs where
      "interleave (take j cs') (take j ks') = xs @ [ks' ! (j - 1)]" by auto
    with cs ks Suc show ?thesis by simp
  qed
qed

lemma inter_post_first:
  "j < length ks \<Longrightarrow>
   interleave ([] # drop (Suc j) cs) (drop j ks) = ks ! j # interleave (drop (Suc j) cs) (drop (Suc j) ks)"
  by (simp add: Cons_nth_drop_Suc [symmetric])

lemma inter_split_key:
  "length cs = Suc (length ks) \<Longrightarrow> j < length ks \<Longrightarrow>
   interleave cs ks =
     interleave (take (Suc j) cs) (take j ks) @ ks ! j # interleave (drop (Suc j) cs) (drop (Suc j) ks)"
proof (induction j arbitrary: cs ks)
  case 0
  then obtain c cs' k ks' where cs: "cs = c # cs'" and ks: "ks = k # ks'"
    by (cases cs; cases ks) auto
  then show ?case by simp
next
  case (Suc j)
  then obtain c cs' k ks' where cs: "cs = c # cs'" and ks: "ks = k # ks'"
    by (cases cs; cases ks) auto
  with Suc.prems Suc.IH [of cs' ks'] show ?case by simp
qed

lemma inter_insert:
  "length cs = Suc (length ks) \<Longrightarrow> j \<le> length ks \<Longrightarrow>
   interleave (take j cs @ [a, b] @ drop (Suc j) cs) (take j ks @ [m] @ drop j ks) =
     interleave (take j cs) (take j ks) @ (a @ m # b) @ interleave ([] # drop (Suc j) cs) (drop j ks)"
proof (induction j arbitrary: cs ks)
  case 0
  then obtain c cs' where "cs = c # cs'" by (cases cs) auto
  then show ?case using inter_Cons_Nil [of b cs' ks] by simp
next
  case (Suc j)
  then obtain c cs' k ks' where cs: "cs = c # cs'" and ks: "ks = k # ks'"
    by (cases cs; cases ks) auto
  with Suc.prems Suc.IH [of cs' ks'] show ?case by simp
qed

lemma inter_update:
  assumes "length cs = Suc (length ks)" and "j \<le> length ks"
  shows "interleave (cs[j := c']) ks =
     interleave (take j cs) (take j ks) @ c' @ interleave ([] # drop (Suc j) cs) (drop j ks)"
  using inter_split_child [of "cs[j := c']" ks j] assms by simp

lemma take_mid_drop:
  "j < n \<Longrightarrow> n \<le> length xs \<Longrightarrow> take n xs = take j xs @ xs ! j # take (n - Suc j) (drop (Suc j) xs)"
proof -
  assume a: "j < n" "n \<le> length xs"
  have "take n xs = take j (take n xs) @ drop j (take n xs)"
    by (rule append_take_drop_id [symmetric])
  also have "take j (take n xs) = take j xs" using a by simp
  also have "drop j (take n xs) = xs ! j # drop (Suc j) (take n xs)"
    using a by (intro drop_take_Cons) auto
  also have "drop (Suc j) (take n xs) = take (n - Suc j) (drop (Suc j) xs)"
    by (simp add: drop_take)
  finally show ?thesis .
qed

section \<open>The halves of a split node are well formed\<close>

lemma node_keys_nat: "node_n nd = int n \<Longrightarrow> node_keys nd = take n (keys nd)"
  by (simp add: node_keys_def)

lemma node_children_nat: "node_n nd = int n \<Longrightarrow> node_children nd = take (Suc n) (children nd)"
proof -
  assume a: "node_n nd = int n"
  have "nat (int n + 1) = Suc n" by linarith
  then show ?thesis by (simp only: node_children_def a)
qed

lemma inorder_leaf: "is_leaf nd \<Longrightarrow> inorder nd = node_keys nd"
  by (simp add: inorder.simps [of nd])

lemma inorder_internal:
  "\<not> is_leaf nd \<Longrightarrow>
   inorder nd = interleave (map sub_inorder (node_children nd)) (node_keys nd)"
  by (simp add: inorder.simps [of nd])

lemma split_halves:
  assumes t: "0 < t" and wf: "wf_node (int t) h y" and full: "node_n y = 2 * int t - 1"
  shows "wf_node (int t) h (split_y t y)"
    and "wf_node (int t) h (split_z t y)"
    and "inorder y = inorder (split_y t y) @ keys y ! (t - 1) # inorder (split_z t y)"
proof -
  from wf obtain h' where h: "h = Suc h'" by (cases h) auto
  have ny: "node_n y = int (2 * t - 1)" using full t by linarith
  note F = wf [unfolded h wf_Suc_iff [OF t ny]]
  from F have yt: "node_t y = int t" and lk: "length (keys y) = 2 * t - 1"
    and lc: "length (children y) = 2 * t" by auto
  have S: "Suc (2 * t - 1) = 2 * t" "Suc (t - 1) = t" using t by auto
  have nyy: "node_n (split_y t y) = int (t - 1)" and nz: "node_n (split_z t y) = int (t - 1)"
    using t by (auto simp: split_y_def split_z_def)
  have leaf: "is_leaf (split_y t y) = is_leaf y" "is_leaf (split_z t y) = is_leaf y"
    by (simp_all add: split_y_def split_z_def)
  have good: "\<exists>c. co = Some c \<and> wf_node (int t) h' c \<and> int t - 1 \<le> node_n c"
    if "co \<in> set (take (2 * t) (children y))" "\<not> is_leaf y" for co
    using F that S by auto
  have null: "\<forall>co\<in>set (children y). co = None" if "is_leaf y"
    using F that by auto
  have h0: "h' = 0" if "is_leaf y" using F that by auto
  \<comment> \<open>the children arrays of the two halves\<close>
  have cy: "take t (children (split_y t y)) = take t (children y)"
           "drop t (children (split_y t y)) = replicate t None" if "\<not> is_leaf y"
    using that lc by (simp_all add: split_y_def)
  have cz: "take t (children (split_z t y)) = drop t (take (2 * t) (children y))"
           "drop t (children (split_z t y)) = replicate t None" if "\<not> is_leaf y"
    using that lc by (simp_all add: split_z_def drop_take)
  have kz: "take (t - 1) (keys (split_z t y)) = drop t (take (2 * t - 1) (keys y))"
  proof -
    have "2 * t - 1 - t = t - 1" by simp
    then show ?thesis using lk by (simp add: split_z_def drop_take)
  qed
  show "wf_node (int t) h (split_y t y)"
    unfolding h wf_Suc_iff [OF t nyy] S
  proof (cases "is_leaf y")
    case True
    with null h0 yt lk lc show "node_t (split_y t y) = int t \<and>
      length (keys (split_y t y)) = 2 * t - 1 \<and> length (children (split_y t y)) = 2 * t \<and>
      t - 1 \<le> 2 * t - 1 \<and>
      (if is_leaf (split_y t y) then h' = 0 \<and> (\<forall>co\<in>set (children (split_y t y)). co = None)
       else (\<forall>co\<in>set (take t (children (split_y t y))).
               \<exists>c. co = Some c \<and> wf_node (int t) h' c \<and> int t - 1 \<le> node_n c) \<and>
            (\<forall>co\<in>set (drop t (children (split_y t y))). co = None))"
      by (simp add: split_y_def)
  next
    case False
    have sub: "set (take t (children y)) \<subseteq> set (take (2 * t) (children y))"
      by (rule set_take_subset_set_take) simp
    from False yt lk lc good sub show "node_t (split_y t y) = int t \<and>
      length (keys (split_y t y)) = 2 * t - 1 \<and> length (children (split_y t y)) = 2 * t \<and>
      t - 1 \<le> 2 * t - 1 \<and>
      (if is_leaf (split_y t y) then h' = 0 \<and> (\<forall>co\<in>set (children (split_y t y)). co = None)
       else (\<forall>co\<in>set (take t (children (split_y t y))).
               \<exists>c. co = Some c \<and> wf_node (int t) h' c \<and> int t - 1 \<le> node_n c) \<and>
            (\<forall>co\<in>set (drop t (children (split_y t y))). co = None))"
      unfolding leaf cy [OF False]
      by (auto simp: split_y_def)
  qed
  show "wf_node (int t) h (split_z t y)"
    unfolding h wf_Suc_iff [OF t nz] S
  proof (cases "is_leaf y")
    case True
    with h0 yt lk t show "node_t (split_z t y) = int t \<and>
      length (keys (split_z t y)) = 2 * t - 1 \<and> length (children (split_z t y)) = 2 * t \<and>
      t - 1 \<le> 2 * t - 1 \<and>
      (if is_leaf (split_z t y) then h' = 0 \<and> (\<forall>co\<in>set (children (split_z t y)). co = None)
       else (\<forall>co\<in>set (take t (children (split_z t y))).
               \<exists>c. co = Some c \<and> wf_node (int t) h' c \<and> int t - 1 \<le> node_n c) \<and>
            (\<forall>co\<in>set (drop t (children (split_z t y))). co = None))"
      by (auto simp: split_z_def)
  next
    case False
    have sub: "set (drop t (take (2 * t) (children y))) \<subseteq> set (take (2 * t) (children y))"
      by (rule set_drop_subset)
    from False yt lk lc good sub t show "node_t (split_z t y) = int t \<and>
      length (keys (split_z t y)) = 2 * t - 1 \<and> length (children (split_z t y)) = 2 * t \<and>
      t - 1 \<le> 2 * t - 1 \<and>
      (if is_leaf (split_z t y) then h' = 0 \<and> (\<forall>co\<in>set (children (split_z t y)). co = None)
       else (\<forall>co\<in>set (take t (children (split_z t y))).
               \<exists>c. co = Some c \<and> wf_node (int t) h' c \<and> int t - 1 \<le> node_n c) \<and>
            (\<forall>co\<in>set (drop t (children (split_z t y))). co = None))"
      unfolding leaf cz [OF False]
      by (auto simp: split_z_def)
  qed
  have ky: "node_keys y = take (2 * t - 1) (keys y)" by (rule node_keys_nat [OF ny])
  have kyy: "node_keys (split_y t y) = take (t - 1) (keys y)"
    using node_keys_nat [OF nyy] by (simp add: split_y_def)
  have kzz: "node_keys (split_z t y) = drop t (take (2 * t - 1) (keys y))"
    using node_keys_nat [OF nz] kz by simp
  have keys_split: "take (2 * t - 1) (keys y) =
      take (t - 1) (keys y) @ keys y ! (t - 1) # drop t (take (2 * t - 1) (keys y))"
  proof -
    have "t - 1 < 2 * t - 1" using t by simp
    from take_mid_drop [OF this, of "keys y"] lk S show ?thesis
      by (simp add: drop_take)
  qed
  show "inorder y = inorder (split_y t y) @ keys y ! (t - 1) # inorder (split_z t y)"
  proof (cases "is_leaf y")
    case True
    with leaf ky kyy kzz keys_split show ?thesis
      by (simp add: inorder_leaf)
  next
    case False
    let ?cs = "map sub_inorder (take (2 * t) (children y))"
    let ?ks = "take (2 * t - 1) (keys y)"
    have ccy: "node_children y = take (2 * t) (children y)"
      using node_children_nat [OF ny] S by simp
    have ccyy: "node_children (split_y t y) = take t (children y)"
      using node_children_nat [OF nyy] S cy [OF False] by simp
    have cczz: "node_children (split_z t y) = drop t (take (2 * t) (children y))"
      using node_children_nat [OF nz] S cz [OF False] by simp
    have len: "length ?cs = Suc (length ?ks)" using lk lc t by simp
    have j: "t - 1 < length ?ks" using lk t by simp
    have "inorder y = interleave ?cs ?ks"
      using False ccy ky by (simp add: inorder_internal)
    also have "\<dots> = interleave (take t ?cs) (take (t - 1) ?ks) @
        ?ks ! (t - 1) # interleave (drop t ?cs) (drop t ?ks)"
      using inter_split_key [OF len j] S by simp
    also have "take t ?cs = map sub_inorder (take t (children y))"
      by (simp add: take_map)
    also have "take (t - 1) ?ks = take (t - 1) (keys y)" using t by simp
    also have "?ks ! (t - 1) = keys y ! (t - 1)" using t by simp
    also have "drop t ?cs = map sub_inorder (drop t (take (2 * t) (children y)))"
      by (simp add: drop_map)
    finally show ?thesis
      using False leaf ccyy cczz kyy kzz by (simp add: inorder_internal)
  qed
qed

section \<open>split_child keeps the invariant and the in-order list\<close>

lemma take_drop_app4:
  assumes "length A = j" and "length B = n - j" and "j \<le> n"
  shows "take (Suc (Suc n)) (A @ [a, b] @ B @ C) = A @ [a, b] @ B"
    and "drop (Suc (Suc n)) (A @ [a, b] @ B @ C) = C"
    and "take (Suc n) (A @ [m] @ B @ C) = A @ [m] @ B"
    and "drop (Suc n) (A @ [m] @ B @ C) = C"
    and "(A @ [a, b] @ B @ C) ! j = a" and "(A @ [a, b] @ B @ C) ! Suc j = b"
    and "(A @ [m] @ B @ C) ! j = m"
  using assms by (simp_all add: nth_append Suc_diff_le)

lemma split_child_wf:
  assumes t: "0 < t" and tb: "2 * int t \<le> INT_MAX"
    and wf: "wf_node (int t) (Suc h) p" and leaf: "\<not> is_leaf p"
    and pn: "node_n p = int n" and nf: "n < 2 * t - 1" and j: "j \<le> n"
    and y: "children p ! j = Some y" and full: "node_n y = 2 * int t - 1"
  shows "\<exists>p'. split_child (int j) p = Some p' \<and> wf_node (int t) (Suc h) p' \<and> \<not> is_leaf p' \<and>
           node_n p' = int (Suc n) \<and> inorder p' = inorder p \<and>
           node_keys p' = take j (node_keys p) @ [keys y ! (t - 1)] @ drop j (node_keys p) \<and>
           node_children p' = take j (node_children p) @ [Some (split_y t y), Some (split_z t y)] @
                                drop (Suc j) (node_children p)"
proof -
  note F = wf [unfolded wf_Suc_iff [OF t pn]]
  from F leaf have pt: "node_t p = int t" and lk: "length (keys p) = 2 * t - 1"
    and lc: "length (children p) = 2 * t"
    and good: "\<forall>co\<in>set (take (Suc n) (children p)).
                 \<exists>c. co = Some c \<and> wf_node (int t) h c \<and> int t - 1 \<le> node_n c"
    and null: "\<forall>co\<in>set (drop (Suc n) (children p)). co = None"
    by auto
  have jin: "children p ! j \<in> set (take (Suc n) (children p))"
    using j nf lc by (auto simp: in_set_conv_nth intro!: exI [of _ j])
  with good y have wfy: "wf_node (int t) h y" by auto
  then obtain h' where h: "h = Suc h'" by (cases h) auto
  have ny: "node_n y = int (2 * t - 1)" using full t by linarith
  note G = wfy [unfolded h wf_Suc_iff [OF t ny]]
  from G have yt: "node_t y = int t" and ylk: "length (keys y) = 2 * t - 1"
    and ylc: "length (children y) = 2 * t" by auto
  let ?m = "keys y ! (t - 1)"
  let ?ks = "take j (keys p) @ [?m] @ take (n - j) (drop j (keys p)) @ drop (Suc n) (keys p)"
  let ?cs = "take j (children p) @ [Some (split_y t y), Some (split_z t y)] @
          take (n - j) (drop (Suc j) (children p)) @ drop (n + 2) (children p)"
  let ?p = "Node (int t) (is_leaf p) (int n + 1) ?ks ?cs"
  have sp: "split_child (int j) p = Some ?p"
    by (rule split_child_closed [OF t tb pt pn j _ _ y yt]) (use nf lk lc ylk ylc in auto)
  have pn': "node_n ?p = int (Suc n)" by simp
  have lA: "length (take j (keys p)) = j" "length (take j (children p)) = j"
    using j nf lk lc by auto
  have lB: "length (take (n - j) (drop j (keys p))) = n - j"
    "length (take (n - j) (drop (Suc j) (children p))) = n - j"
    using j nf lk lc by auto
  have n2: "n + 2 = Suc (Suc n)" by simp
  have tk: "take (Suc n) ?ks = take j (keys p) @ [?m] @ take (n - j) (drop j (keys p))"
    by (rule take_drop_app4 (3) [OF lA(1) lB(1) j])
  have tc: "take (Suc (Suc n)) ?cs = take j (children p) @
      [Some (split_y t y), Some (split_z t y)] @ take (n - j) (drop (Suc j) (children p))"
    unfolding n2 by (rule take_drop_app4 (1) [OF lA(2) lB(2) j])
  have dc: "drop (Suc (Suc n)) ?cs = drop (Suc (Suc n)) (children p)"
    unfolding n2 by (rule take_drop_app4 (2) [OF lA(2) lB(2) j])
  have nk: "node_keys p = take n (keys p)" by (rule node_keys_nat [OF pn])
  have nc: "node_children p = take (Suc n) (children p)" by (rule node_children_nat [OF pn])
  have nk': "node_keys ?p = take j (node_keys p) @ [?m] @ drop j (node_keys p)"
    using node_keys_nat [OF pn'] tk j by (simp add: nk drop_take)
  have nc': "node_children ?p = take j (node_children p) @
        [Some (split_y t y), Some (split_z t y)] @ drop (Suc j) (node_children p)"
    using node_children_nat [OF pn'] tc j by (simp add: nc drop_take)
  note H = split_halves [OF t wfy full]
  have wf': "wf_node (int t) (Suc h) ?p"
    unfolding wf_Suc_iff [OF t pn']
  proof (intro conjI)
    show "node_t ?p = int t" by simp
    show "length (keys ?p) = 2 * t - 1" using j nf lk by simp
    show "length (children ?p) = 2 * t" using j nf lc by simp
    show "Suc n \<le> 2 * t - 1" using nf by simp
    show "if is_leaf ?p then h = 0 \<and> (\<forall>co\<in>set (children ?p). co = None)
          else (\<forall>co\<in>set (take (Suc (Suc n)) (children ?p)).
                  \<exists>c. co = Some c \<and> wf_node (int t) h c \<and> int t - 1 \<le> node_n c) \<and>
               (\<forall>co\<in>set (drop (Suc (Suc n)) (children ?p)). co = None)"
    proof -
      have a: "set (take j (children p)) \<subseteq> set (take (Suc n) (children p))"
        using j by (intro set_take_subset_set_take) simp
      have "take (n - j) (drop (Suc j) (children p)) = drop (Suc j) (take (Suc n) (children p))"
        by (simp add: drop_take)
      then have b: "set (take (n - j) (drop (Suc j) (children p)))
                      \<subseteq> set (take (Suc n) (children p))"
        by (simp add: set_drop_subset)
      have c: "set (drop (Suc (Suc n)) (children p)) \<subseteq> set (drop (Suc n) (children p))"
        by (rule set_drop_subset_set_drop) simp
      have yz: "int t - 1 \<le> node_n (split_y t y)" "int t - 1 \<le> node_n (split_z t y)"
        by (simp_all add: split_y_def split_z_def)
      have "\<exists>c. co = Some c \<and> wf_node (int t) h c \<and> int t - 1 \<le> node_n c"
        if "co \<in> set (take (Suc (Suc n)) ?cs)" for co
        using that good a b H(1,2) yz unfolding tc by auto
      moreover have "co = None" if "co \<in> set (drop (Suc (Suc n)) ?cs)" for co
        using that null c unfolding dc by auto
      ultimately show ?thesis using leaf by simp
    qed
  qed
  have ino: "inorder ?p = inorder p"
  proof -
    let ?lc = "map sub_inorder (node_children p)"
    have len: "length ?lc = Suc (length (node_keys p))" using nk nc nf lk lc by simp
    have jl: "j \<le> length (node_keys p)" using nk j nf lk by simp
    have "inorder ?p = interleave (map sub_inorder (node_children ?p)) (node_keys ?p)"
      using leaf by (simp add: inorder_internal)
    also have "\<dots> = interleave
        (take j ?lc @ [inorder (split_y t y), inorder (split_z t y)] @ drop (Suc j) ?lc)
        (take j (node_keys p) @ [?m] @ drop j (node_keys p))"
      unfolding nc' nk' by (simp add: take_map drop_map)
    also have "\<dots> = interleave (take j ?lc) (take j (node_keys p)) @
        (inorder (split_y t y) @ ?m # inorder (split_z t y)) @
        interleave ([] # drop (Suc j) ?lc) (drop j (node_keys p))"
      by (rule inter_insert [OF len jl])
    also have "inorder (split_y t y) @ ?m # inorder (split_z t y) = ?lc ! j"
      using H(3) y j nf lc by (simp add: nc)
    also have "interleave (take j ?lc) (take j (node_keys p)) @ ?lc ! j @
        interleave ([] # drop (Suc j) ?lc) (drop j (node_keys p)) =
        interleave ?lc (node_keys p)"
      by (rule inter_split_child [OF len jl, symmetric])
    also have "\<dots> = inorder p" using leaf by (simp add: inorder_internal)
    finally show ?thesis .
  qed
  show ?thesis
    using sp wf' leaf pn' ino nk' nc' by (intro exI [of _ ?p]) simp
qed

section \<open>Choosing the child to descend into\<close>

lemma sorted_insert_at:
  assumes "sorted xs" and "j \<le> length xs" and "0 < j \<longrightarrow> xs ! (j - 1) \<le> k"
    and "\<forall>m. j \<le> m \<and> m < length xs \<longrightarrow> k \<le> xs ! m"
  shows "sorted (take j xs @ k # drop j xs)"
proof -
  have lo: "x \<le> k" if "x \<in> set (take j xs)" for x
  proof -
    from that obtain m where m: "m < j" "m < length xs" "x = xs ! m"
      by (auto simp: in_set_conv_nth)
    then have "xs ! m \<le> xs ! (j - 1)"
      using assms(1,2) by (intro sorted_nth_mono) auto
    with m assms(3) show ?thesis by auto
  qed
  have hi: "k \<le> y" if "y \<in> set (drop j xs)" for y
  proof -
    from that obtain m where "m < length xs - j" "y = drop j xs ! m"
      by (auto simp: in_set_conv_nth)
    then have "y = xs ! (j + m)" "j + m < length xs" using assms(2) by auto
    with assms(4) show ?thesis by auto
  qed
  have "sorted (take j xs)" "sorted (drop j xs)"
    using assms(1) by (simp_all add: sorted_wrt_take sorted_wrt_drop)
  moreover have "\<forall>x\<in>set (take j xs). \<forall>y\<in>set (drop j xs). x \<le> y"
    using lo hi by (blast intro: order_trans)
  ultimately show ?thesis using lo hi by (auto simp: sorted_append)
qed

lemma sorted_replace_mid:
  assumes "sorted (pre @ mid @ post)" and "sorted mid'" and "set mid' = insert k (set mid)"
    and "\<forall>x\<in>set pre. x \<le> k" and "\<forall>y\<in>set post. k \<le> y"
  shows "sorted (pre @ mid' @ post)"
  using assms by (auto simp: sorted_append)

lemma split_if_full_wf:
  assumes t: "0 < t" and tb: "2 * int t \<le> INT_MAX"
    and wf: "wf_node (int t) (Suc h) nd" and leaf: "\<not> is_leaf nd"
    and pn: "node_n nd = int n" and nf: "n < 2 * t - 1" and j: "j \<le> n"
    and le: "0 < j \<longrightarrow> keys nd ! (j - 1) \<le> k" and gt: "j < n \<longrightarrow> k < keys nd ! j"
  shows "\<exists>nd1 j2 c1 n1. split_if_full k (int j - 1) nd = Some (nd1, int j2 - 1) \<and>
           wf_node (int t) (Suc h) nd1 \<and> \<not> is_leaf nd1 \<and> inorder nd1 = inorder nd \<and>
           node_n nd1 = int n1 \<and> n \<le> n1 \<and> j2 \<le> n1 \<and> children nd1 ! j2 = Some c1 \<and>
           node_n c1 < 2 * int t - 1 \<and>
           (0 < j2 \<longrightarrow> node_keys nd1 ! (j2 - 1) \<le> k) \<and>
           (j2 < n1 \<longrightarrow> k \<le> node_keys nd1 ! j2)"
proof -
  note F = wf [unfolded wf_Suc_iff [OF t pn]]
  from F leaf have pt: "node_t nd = int t" and lk: "length (keys nd) = 2 * t - 1"
    and lc: "length (children nd) = 2 * t"
    and good: "\<forall>co\<in>set (take (Suc n) (children nd)).
                 \<exists>c. co = Some c \<and> wf_node (int t) h c \<and> int t - 1 \<le> node_n c"
    by auto
  have jin: "children nd ! j \<in> set (take (Suc n) (children nd))"
    using j nf lc by (auto simp: in_set_conv_nth intro!: exI [of _ j])
  with good obtain c where c: "children nd ! j = Some c" and wfc: "wf_node (int t) h c"
    by auto
  have r: "rd (children nd) (int j - 1 + 1) = Some (Some c)"
    using rd_nat [of j "children nd"] j nf lc c by simp
  have nk: "node_keys nd = take n (keys nd)" by (rule node_keys_nat [OF pn])
  show ?thesis
  proof (cases "node_n c = 2 * int t - 1")
    case False
    from wfc obtain h' nc where h': "h = Suc h'" and nc: "node_n c = int nc" by (rule wf_n)
    from wfc [unfolded h' wf_Suc_iff [OF t nc]] have "nc \<le> 2 * t - 1" by simp
    with False nc t have small: "node_n c < 2 * int t - 1" by linarith
    have "split_if_full k (int j - 1) nd = Some (nd, int j - 1)"
      unfolding split_if_full_def using r False pt by (simp add: two_t_nat [OF t tb])
    moreover have "0 < j \<longrightarrow> node_keys nd ! (j - 1) \<le> k" using le j nk by auto
    moreover have "j < n \<longrightarrow> k \<le> node_keys nd ! j" using gt nk by auto
    ultimately show ?thesis
      using wf leaf pn j c small by blast
  next
    case True
    from split_child_wf [OF t tb wf leaf pn nf j c True] obtain p' where
      sp: "split_child (int j) nd = Some p'" and wf': "wf_node (int t) (Suc h) p'"
      and leaf': "\<not> is_leaf p'" and pn': "node_n p' = int (Suc n)"
      and ino: "inorder p' = inorder nd"
      and nk': "node_keys p' = take j (node_keys nd) @ [keys c ! (t - 1)] @ drop j (node_keys nd)"
      and nc': "node_children p' = take j (node_children nd) @
                   [Some (split_y t c), Some (split_z t c)] @ drop (Suc j) (node_children nd)"
      by blast
    let ?m = "keys c ! (t - 1)"
    have lj: "length (take j (node_keys nd)) = j" using nk j nf lk by simp
    have lcj: "length (take j (node_children nd)) = j"
      using node_children_nat [OF pn] j nf lc by simp
    have keyj: "node_keys p' ! j = ?m" unfolding nk' using lj by (simp add: nth_append)
    have "keys p' ! j = node_keys p' ! j"
      using node_keys_nat [OF pn'] j by simp
    with keyj have kj: "keys p' ! j = ?m" by simp
    from wf' [unfolded wf_Suc_iff [OF t pn']] have lk': "length (keys p') = 2 * t - 1" by simp
    have r2: "rd (keys p') (int j - 1 + 1) = Some ?m"
      using rd_nat [of j "keys p'"] j nf lk' kj by simp
    have chj: "node_children p' ! j = Some (split_y t c)"
      "node_children p' ! Suc j = Some (split_z t c)"
      unfolding nc' using lcj by (simp_all add: nth_append)
    have ch: "children p' ! j = Some (split_y t c)" "children p' ! Suc j = Some (split_z t c)"
      using chj node_children_nat [OF pn'] j by simp_all
    have small: "node_n (split_y t c) < 2 * int t - 1" "node_n (split_z t c) < 2 * int t - 1"
      using t by (simp_all add: split_y_def split_z_def)
    have res: "split_if_full k (int j - 1) nd =
               Some (p', if ?m < k then int j - 1 + 1 else int j - 1)"
      unfolding split_if_full_def using r True pt sp r2 by (simp add: two_t_nat [OF t tb])
    show ?thesis
    proof (cases "?m < k")
      case True
      have "split_if_full k (int j - 1) nd = Some (p', int (Suc j) - 1)"
        using res True by simp
      moreover have "node_keys p' ! (Suc j - 1) \<le> k" using keyj True by simp
      moreover have "Suc j < Suc n \<longrightarrow> k \<le> node_keys p' ! Suc j"
      proof
        assume "Suc j < Suc n"
        then have "j < n" by simp
        moreover have "node_keys p' ! Suc j = node_keys nd ! j"
          unfolding nk' using lj \<open>j < n\<close> nk nf lk by (simp add: nth_append)
        ultimately show "k \<le> node_keys p' ! Suc j" using gt nk by auto
      qed
      ultimately show ?thesis
        using wf' leaf' ino pn' j ch(2) small(2)
        by (intro exI [of _ p'] exI [of _ "Suc j"] exI [of _ "split_z t c"] exI [of _ "Suc n"])
           simp
    next
      case False
      have "split_if_full k (int j - 1) nd = Some (p', int j - 1)"
        using res False by simp
      moreover have "0 < j \<longrightarrow> node_keys p' ! (j - 1) \<le> k"
      proof
        assume "0 < j"
        then have "node_keys p' ! (j - 1) = node_keys nd ! (j - 1)"
          unfolding nk' using lj by (simp add: nth_append)
        with le \<open>0 < j\<close> j nk show "node_keys p' ! (j - 1) \<le> k" by auto
      qed
      moreover have "k \<le> node_keys p' ! j" using keyj False by simp
      ultimately show ?thesis
        using wf' leaf' ino pn' j ch(1) small(1)
        by (intro exI [of _ p'] exI [of _ j] exI [of _ "split_y t c"] exI [of _ "Suc n"])
           simp
    qed
  qed
qed

section \<open>insert_non_full keeps the invariant and adds one key\<close>

lemma child_wf:
  assumes t: "0 < t" and wf1: "wf_node (int t) (Suc h) nd1" and leaf1: "\<not> is_leaf nd1"
    and pn1: "node_n nd1 = int n1" and j2: "j2 \<le> n1" and c1: "children nd1 ! j2 = Some c1"
  shows "wf_node (int t) h c1" and "int t - 1 \<le> node_n c1"
    and "rd (children nd1) (int j2) = Some (Some c1)"
    and "wr (children nd1) (int j2) v = Some ((children nd1)[j2 := v])"
proof -
  note G = wf1 [unfolded wf_Suc_iff [OF t pn1]]
  from G leaf1 have lk1: "length (keys nd1) = 2 * t - 1"
    and lc1: "length (children nd1) = 2 * t" and n1: "n1 \<le> 2 * t - 1"
    and good: "\<forall>co\<in>set (take (Suc n1) (children nd1)).
               \<exists>c. co = Some c \<and> wf_node (int t) h c \<and> int t - 1 \<le> node_n c"
    and null: "\<forall>co\<in>set (drop (Suc n1) (children nd1)). co = None"
    and pt1: "node_t nd1 = int t"
    by auto
  have j2l: "j2 < length (children nd1)" using j2 n1 lc1 t by simp
  have "children nd1 ! j2 \<in> set (take (Suc n1) (children nd1))"
    using j2 j2l by (auto simp: in_set_conv_nth intro!: exI [of _ j2])
  with good c1 have wfc: "wf_node (int t) h c1" and minc: "int t - 1 \<le> node_n c1"
    by auto
  from wfc show "wf_node (int t) h c1" .
  from minc show "int t - 1 \<le> node_n c1" .
  show "rd (children nd1) (int j2) = Some (Some c1)"
    using rd_nat [OF j2l] c1 by simp
  show "wr (children nd1) (int j2) v = Some ((children nd1)[j2 := v])"
    using wr_nat [OF j2l] by simp
qed

lemma replace_child_wf:
  assumes t: "0 < t" and wf1: "wf_node (int t) (Suc h) nd1" and leaf1: "\<not> is_leaf nd1"
    and pn1: "node_n nd1 = int n1" and j2: "j2 \<le> n1" and c1: "children nd1 ! j2 = Some c1"
    and le2: "0 < j2 \<longrightarrow> node_keys nd1 ! (j2 - 1) \<le> k"
    and ge2: "j2 < n1 \<longrightarrow> k \<le> node_keys nd1 ! j2"
    and wfc': "wf_node (int t) h c'" and nc': "node_n c1 \<le> node_n c'"
    and msc: "mset (inorder c') = add_mset k (mset (inorder c1))"
    and soc: "sorted (inorder c1) \<longrightarrow> sorted (inorder c')"
    and nd': "nd' = Node (node_t nd1) (is_leaf nd1) (node_n nd1) (keys nd1)
                      ((children nd1)[j2 := Some c'])"
  shows "wf_node (int t) (Suc h) nd'"
    and "mset (inorder nd') = add_mset k (mset (inorder nd1))"
    and "sorted (inorder nd1) \<Longrightarrow> sorted (inorder nd')"
proof -
  note G = wf1 [unfolded wf_Suc_iff [OF t pn1]]
  from G leaf1 have lk1: "length (keys nd1) = 2 * t - 1"
    and lc1: "length (children nd1) = 2 * t" and n1: "n1 \<le> 2 * t - 1"
    and good: "\<forall>co\<in>set (take (Suc n1) (children nd1)).
               \<exists>c. co = Some c \<and> wf_node (int t) h c \<and> int t - 1 \<le> node_n c"
    and null: "\<forall>co\<in>set (drop (Suc n1) (children nd1)). co = None"
    and pt1: "node_t nd1 = int t"
    by auto
  have j2l: "j2 < length (children nd1)" using j2 n1 lc1 t by simp
  have "children nd1 ! j2 \<in> set (take (Suc n1) (children nd1))"
    using j2 j2l by (auto simp: in_set_conv_nth intro!: exI [of _ j2])
  with good c1 have wfc: "wf_node (int t) h c1" and minc: "int t - 1 \<le> node_n c1"
    by auto
  let ?cs = "(children nd1)[j2 := Some c']"
  let ?nd = "Node (node_t nd1) (is_leaf nd1) (node_n nd1) (keys nd1) ?cs"
  have nd'': "nd' = ?nd" by (rule nd')
  have pn': "node_n ?nd = int n1" using pn1 by simp
  have wf': "wf_node (int t) (Suc h) ?nd"
    unfolding wf_Suc_iff [OF t pn']
  proof (intro conjI)
    show "node_t ?nd = int t" using pt1 by simp
    show "length (keys ?nd) = 2 * t - 1" using lk1 by simp
    show "length (children ?nd) = 2 * t" using lc1 by simp
    show "n1 \<le> 2 * t - 1" by (rule n1)
    show "if is_leaf ?nd then h = 0 \<and> (\<forall>co\<in>set (children ?nd). co = None)
        else (\<forall>co\<in>set (take (Suc n1) (children ?nd)).
                \<exists>c. co = Some c \<and> wf_node (int t) h c \<and> int t - 1 \<le> node_n c) \<and>
             (\<forall>co\<in>set (drop (Suc n1) (children ?nd)). co = None)"
    proof -
      have "take (Suc n1) ?cs = (take (Suc n1) (children nd1))[j2 := Some c']"
        using j2 by (simp add: take_update_swap)
      then have "set (take (Suc n1) ?cs) \<subseteq>
          insert (Some c') (set (take (Suc n1) (children nd1)))"
        by (simp add: set_update_subset_insert)
      moreover have "drop (Suc n1) ?cs = drop (Suc n1) (children nd1)"
        using j2 by simp
      ultimately show ?thesis
        using good null wfc' minc nc' leaf1 by auto
    qed
  qed
  let ?lc = "map sub_inorder (node_children nd1)"
  let ?lk = "node_keys nd1"
  let ?pre = "interleave (take j2 ?lc) (take j2 ?lk)"
  let ?post = "interleave ([] # drop (Suc j2) ?lc) (drop j2 ?lk)"
  have nk1: "?lk = take n1 (keys nd1)" by (rule node_keys_nat [OF pn1])
  have nc1: "node_children nd1 = take (Suc n1) (children nd1)"
    by (rule node_children_nat [OF pn1])
  have len: "length ?lc = Suc (length ?lk)" using nk1 nc1 n1 lk1 lc1 t by simp
  have jl: "j2 \<le> length ?lk" using nk1 j2 n1 lk1 by simp
  have lkn: "length ?lk = n1" using nk1 n1 lk1 by simp
  have i1: "inorder nd1 = ?pre @ inorder c1 @ ?post"
  proof -
    have "?lc ! j2 = inorder c1" using c1 j2 j2l nc1 by simp
    with inter_split_child [OF len jl] leaf1 show ?thesis
      by (simp add: inorder_internal)
  qed
  have i2: "inorder ?nd = ?pre @ inorder c' @ ?post"
  proof -
    have "node_keys ?nd = ?lk" by (simp add: node_keys_def)
    moreover have "map sub_inorder (node_children ?nd) = ?lc[j2 := inorder c']"
      using node_children_nat [OF pn'] nc1 j2 by (simp add: take_update_swap map_update)
    ultimately show ?thesis
      using inter_update [OF len jl, of "inorder c'"] leaf1 by (simp add: inorder_internal)
  qed
  have ms: "mset (inorder ?nd) = add_mset k (mset (inorder nd1))"
    unfolding i2 i1 using msc by simp
  have so: "sorted (inorder ?nd)" if "sorted (inorder nd1)"
    unfolding i2
  proof (rule sorted_replace_mid [where k = k and mid = "inorder c1"])
    from that show s1: "sorted (?pre @ inorder c1 @ ?post)" using i1 by simp
    then have "sorted (inorder c1)" by (simp add: sorted_append)
    with soc show "sorted (inorder c')" by simp
    from msc have "set_mset (mset (inorder c')) = set_mset (add_mset k (mset (inorder c1)))"
      by simp
    then show "set (inorder c') = insert k (set (inorder c1))" by simp
    from s1 have sp: "sorted ?pre" and spo: "sorted ?post" by (simp_all add: sorted_append)
    show "\<forall>x\<in>set ?pre. x \<le> k"
    proof (cases "0 < j2")
      case False
      then show ?thesis by simp
    next
      case True
      have "j2 \<le> length ?lc" using len jl by simp
      from inter_pre_last [OF True jl this] obtain xs where
        xs: "?pre = xs @ [?lk ! (j2 - 1)]" by blast
      with sp have "\<forall>x\<in>set xs. x \<le> ?lk ! (j2 - 1)" by (simp add: sorted_append)
      with xs le2 True show ?thesis by auto
    qed
    show "\<forall>y\<in>set ?post. k \<le> y"
    proof (cases "j2 < n1")
      case False
      with j2 lkn have "drop j2 ?lk = []" by simp
      then show ?thesis by simp
    next
      case True
      with lkn have "j2 < length ?lk" by simp
      from inter_post_first [OF this] have
        p: "?post = ?lk ! j2 # interleave (drop (Suc j2) ?lc) (drop (Suc j2) ?lk)" .
      with spo have "\<forall>y\<in>set ?post. ?lk ! j2 \<le> y" by auto
      with ge2 True show ?thesis by auto
    qed
  qed
  from wf' show "wf_node (int t) (Suc h) nd'" unfolding nd'' .
  from ms show "mset (inorder nd') = add_mset k (mset (inorder nd1))" unfolding nd'' .
  from so show "sorted (inorder nd1) \<Longrightarrow> sorted (inorder nd')" unfolding nd'' .
qed

lemma insert_non_full_wf:
  assumes t: "0 < t" and tb: "2 * int t \<le> INT_MAX"
  shows "wf_node (int t) h nd \<Longrightarrow> node_n nd = int n \<Longrightarrow> n < 2 * t - 1 \<Longrightarrow>
     \<exists>nd'. insert_non_full k nd = Some nd' \<and> wf_node (int t) h nd' \<and>
           node_n nd \<le> node_n nd' \<and>
           mset (inorder nd') = add_mset k (mset (inorder nd)) \<and>
           (sorted (inorder nd) \<longrightarrow> sorted (inorder nd'))"
proof (induction h arbitrary: nd n)
  case 0
  then show ?case by simp
next
  case (Suc h)
  note wf = Suc.prems(1) and pn = Suc.prems(2) and nf = Suc.prems(3)
  note F = wf [unfolded wf_Suc_iff [OF t pn]]
  from F have pt: "node_t nd = int t" and lk: "length (keys nd) = 2 * t - 1"
    and lc: "length (children nd) = 2 * t" by auto
  have nk: "node_keys nd = take n (keys nd)" by (rule node_keys_nat [OF pn])
  show ?case
  proof (cases "is_leaf nd")
    case True
    have "n < length (keys nd)" using nf lk by simp
    from leaf_shift_closed [OF this, of k] obtain j1 where j1: "j1 \<le> n"
      and ls: "leaf_shift k (keys nd) (int n - 1) =
           Some (take (Suc j1) (keys nd) @ take (n - j1) (drop j1 (keys nd)) @
                   drop (Suc n) (keys nd), int j1 - 1)"
      and le: "0 < j1 \<longrightarrow> keys nd ! (j1 - 1) \<le> k"
      and gt: "\<forall>m. j1 \<le> m \<and> m < n \<longrightarrow> k < keys nd ! m"
      by blast
    let ?ks1 = "take (Suc j1) (keys nd) @ take (n - j1) (drop j1 (keys nd)) @
                  drop (Suc n) (keys nd)"
    let ?ks2 = "take j1 (keys nd) @ k # take (n - j1) (drop j1 (keys nd)) @
                  drop (Suc n) (keys nd)"
    let ?nd = "Node (node_t nd) (is_leaf nd) (int n + 1) ?ks2 (children nd)"
    have j1l: "j1 < length (keys nd)" using j1 nf lk by simp
    have w: "wr ?ks1 (int j1) k = Some ?ks2"
    proof -
      have "j1 < length ?ks1" using j1l by simp
      from wr_nat [OF this, of k] update_take_Suc_append [OF j1l, of _ k] show ?thesis
        by simp
    qed
    have res: "insert_non_full k nd = Some ?nd"
      by (subst insert_non_full.simps) (simp add: True pn ls w)
    have pn': "node_n ?nd = int (Suc n)" by simp
    have lA: "length (take j1 (keys nd)) = j1" using j1l by simp
    have lB: "length (take (n - j1) (drop j1 (keys nd))) = n - j1" using j1 nf lk by simp
    have "take (Suc n) ?ks2 = take j1 (keys nd) @ [k] @ take (n - j1) (drop j1 (keys nd))"
      using take_drop_app4 (3) [OF lA lB j1, of k] by simp
    then have nk': "node_keys ?nd = take j1 (node_keys nd) @ k # drop j1 (node_keys nd)"
      using node_keys_nat [OF pn'] j1 by (simp add: nk drop_take)
    have wf': "wf_node (int t) (Suc h) ?nd"
      unfolding wf_Suc_iff [OF t pn'] using F True nf j1 lk by simp
    have ino: "inorder nd = node_keys nd" "inorder ?nd = node_keys ?nd"
      using True by (simp_all add: inorder_leaf)
    have ms: "mset (inorder ?nd) = add_mset k (mset (inorder nd))"
    proof -
      have "mset (node_keys nd) = mset (take j1 (node_keys nd)) + mset (drop j1 (node_keys nd))"
        by (metis append_take_drop_id mset_append)
      then show ?thesis unfolding ino nk' by simp
    qed
    have so: "sorted (inorder ?nd)" if "sorted (inorder nd)"
      unfolding ino nk'
    proof (rule sorted_insert_at)
      show "sorted (node_keys nd)" using that ino by simp
      show "j1 \<le> length (node_keys nd)" using nk j1 nf lk by simp
      show "0 < j1 \<longrightarrow> node_keys nd ! (j1 - 1) \<le> k" using le j1 nk by auto
      show "\<forall>m. j1 \<le> m \<and> m < length (node_keys nd) \<longrightarrow> k \<le> node_keys nd ! m"
        using gt nk by (auto intro: less_imp_le)
    qed
    show ?thesis
      using res wf' ms so pn by (intro exI [of _ ?nd]) simp
  next
    case False
    have "n \<le> length (keys nd)" using nf lk by simp
    from find_child_closed [OF this, of k] obtain j1 where j1: "j1 \<le> n"
      and fc: "find_child k (keys nd) (int n - 1) = Some (int j1 - 1)"
      and le: "0 < j1 \<longrightarrow> keys nd ! (j1 - 1) \<le> k"
      and gt: "\<forall>m. j1 \<le> m \<and> m < n \<longrightarrow> k < keys nd ! m"
      by blast
    from gt have gt1: "j1 < n \<longrightarrow> k < keys nd ! j1" by simp
    from split_if_full_wf [OF t tb wf False pn nf j1 le gt1] obtain nd1 j2 c1 n1 where
      sf: "split_if_full k (int j1 - 1) nd = Some (nd1, int j2 - 1)"
      and wf1: "wf_node (int t) (Suc h) nd1" and leaf1: "\<not> is_leaf nd1"
      and ino1: "inorder nd1 = inorder nd" and pn1: "node_n nd1 = int n1"
      and nn1: "n \<le> n1" and j2: "j2 \<le> n1" and c1: "children nd1 ! j2 = Some c1"
      and small: "node_n c1 < 2 * int t - 1"
      and le2: "0 < j2 \<longrightarrow> node_keys nd1 ! (j2 - 1) \<le> k"
      and ge2: "j2 < n1 \<longrightarrow> k \<le> node_keys nd1 ! j2"
      by blast
    note C = child_wf [OF t wf1 leaf1 pn1 j2 c1]
    from C(1) obtain nc where nc: "node_n c1 = int nc" by (rule wf_n)
    with small t have ncs: "nc < 2 * t - 1" by linarith
    from Suc.IH [OF C(1) nc ncs] obtain c' where
      ic: "insert_non_full k c1 = Some c'" and wfc': "wf_node (int t) h c'"
      and nc': "node_n c1 \<le> node_n c'"
      and msc: "mset (inorder c') = add_mset k (mset (inorder c1))"
      and soc: "sorted (inorder c1) \<longrightarrow> sorted (inorder c')"
      by blast
    let ?cs = "(children nd1)[j2 := Some c']"
    let ?nd = "Node (node_t nd1) (is_leaf nd1) (node_n nd1) (keys nd1) ?cs"
    have res: "insert_non_full k nd = Some ?nd"
      by (subst insert_non_full.simps) (simp add: False pn fc sf C(3) ic C(4))
    note R = replace_child_wf [OF t wf1 leaf1 pn1 j2 c1 le2 ge2 wfc' nc' msc soc refl]
    have "node_n nd \<le> node_n ?nd" using pn pn1 nn1 by simp
    with res R ino1 show ?thesis by (intro exI [of _ ?nd]) simp
  qed
qed

section \<open>BTree::insert and the reachable trees\<close>

lemma fold_max_const:
  assumes "\<forall>x\<in>set xs. x = h \<or> x = 0" and "h \<in> set xs"
  shows "fold max xs (0::nat) = h"
proof (rule antisym)
  show "fold max xs 0 \<le> h" using assms(1) by (intro fold_max_le) auto
  show "h \<le> fold max xs 0" using assms(2) by (rule fold_max_ge)
qed

lemma wf_height:
  assumes t: "0 < t" and wf: "wf_node (int t) h nd"
  shows "height nd = h"
  using wf
proof (induction h arbitrary: nd)
  case 0
  then show ?case by simp
next
  case (Suc h)
  from Suc.prems obtain n where pn: "node_n nd = int n" by (rule wf_n)
  note F = Suc.prems [unfolded wf_Suc_iff [OF t pn]]
  obtain t' l n' ks cs where nd: "nd = Node t' l n' ks cs" by (cases nd)
  show ?case
  proof (cases "is_leaf nd")
    case True
    with F nd show ?thesis by simp
  next
    case False
    let ?g = "\<lambda>c. case c of None \<Rightarrow> 0 | Some d \<Rightarrow> height d"
    from F False nd have lc: "length cs = 2 * t"
      and good: "\<forall>co\<in>set (take (Suc n) cs). \<exists>c. co = Some c \<and> wf_node (int t) h c"
      and null: "\<forall>co\<in>set (drop (Suc n) cs). co = None"
      by auto
    have vals: "?g co = h \<or> ?g co = 0" if "co \<in> set cs" for co
    proof -
      from that have "co \<in> set (take (Suc n) cs) \<or> co \<in> set (drop (Suc n) cs)"
        by (metis Un_iff append_take_drop_id set_append)
      then show ?thesis
      proof
        assume "co \<in> set (take (Suc n) cs)"
        with good obtain c where "co = Some c" "wf_node (int t) h c" by auto
        with Suc.IH [of c] show ?thesis by simp
      next
        assume "co \<in> set (drop (Suc n) cs)"
        with null show ?thesis by auto
      qed
    qed
    have "cs ! 0 \<in> set (take (Suc n) cs)"
      using lc t by (auto simp: in_set_conv_nth intro!: exI [of _ 0])
    with good obtain c where c: "cs ! 0 = Some c" "wf_node (int t) h c" by auto
    with Suc.IH [of c] have "?g (cs ! 0) = h" by simp
    moreover have "cs ! 0 \<in> set cs" using lc t by simp
    ultimately have "h \<in> set (map ?g cs)" by force
    moreover have "\<forall>x\<in>set (map ?g cs). x = h \<or> x = 0" using vals by auto
    ultimately have "fold max (map ?g cs) 0 = h" by (intro fold_max_const)
    with False nd show ?thesis by simp
  qed
qed

lemma wf_node_height: "0 < t \<Longrightarrow> wf_node (int t) h nd \<Longrightarrow> wf_node (int t) (height nd) nd"
  using wf_height by blast

lemma BTree_insert_wf:
  assumes t: "0 < t" and tb: "2 * int t \<le> INT_MAX" and inv: "tree_wf t tr"
  shows "\<exists>tr'. BTree_insert k tr = Some tr' \<and> tree_wf t tr' \<and> root tr' \<noteq> None \<and>
           mset (tree_inorder tr') = add_mset k (mset (tree_inorder tr)) \<and>
           (sorted (tree_inorder tr) \<longrightarrow> sorted (tree_inorder tr')) \<and>
           tree_height tr' =
             (case root tr of None \<Rightarrow> 1
              | Some r \<Rightarrow> if node_n r = 2 * int t - 1 then tree_height tr + 1
                          else tree_height tr)"
proof -
  from inv have tt: "tree_t tr = int t" by (simp add: tree_wf_def)
  have n1: "nat (2 * int t - 1) = 2 * t - 1" using t by linarith
  have n2: "nat (2 * int t) = 2 * t" by linarith
  have new: "new_node (int t) l = Some (Node (int t) l 0 (replicate (2 * t - 1) (0::'a))
                                         (replicate (2 * t) None))" for l
    using t by (simp add: new_node_def two_t_nat [OF t tb] n1 n2)
  show ?thesis
  proof (cases "root tr")
    case None
    let ?ks = "(replicate (2 * t - 1) (0::'a))[0 := k]"
    let ?r = "Node (int t) True 1 ?ks (replicate (2 * t) None)"
    have w: "wr (replicate (2 * t - 1) (0::'a)) 0 k = Some ?ks"
      using wr_nat [of 0 "replicate (2 * t - 1) (0::'a)" k] t by simp
    have res: "BTree_insert k tr = Some (tr\<lparr>root := Some ?r\<rparr>)"
      using w by (simp add: BTree_insert_def None tt new)
    have pn: "node_n ?r = int 1" by simp
    have wf: "wf_node (int t) (Suc 0) ?r"
      unfolding wf_Suc_iff [OF t pn] using t by auto
    have "take 1 ?ks = [k]" using t by (cases "2 * t - 1") auto
    then have ino: "inorder ?r = [k]"
      using node_keys_nat [OF pn] by (simp add: inorder_leaf)
    have "height ?r = 1" by simp
    with res wf ino None tt show ?thesis
      by (intro exI [of _ "tr\<lparr>root := Some ?r\<rparr>"])
         (simp add: tree_wf_def tree_inorder_def tree_height_def)
  next
    case (Some r)
    with inv have wfr: "wf_node (int t) (height r) r" by (simp add: tree_wf_def)
    then obtain h n where h: "height r = Suc h" and pn: "node_n r = int n" by (rule wf_n)
    note F = wfr [unfolded h wf_Suc_iff [OF t pn]]
    show ?thesis
    proof (cases "node_n r = 2 * int t - 1")
      case False
      with F pn t have nf: "n < 2 * t - 1" by auto
      from insert_non_full_wf [OF t tb wfr pn nf, of k] obtain r' where
        ir: "insert_non_full k r = Some r'" and wf': "wf_node (int t) (height r) r'"
        and ms: "mset (inorder r') = add_mset k (mset (inorder r))"
        and so: "sorted (inorder r) \<longrightarrow> sorted (inorder r')"
        by blast
      have res: "BTree_insert k tr = Some (tr\<lparr>root := Some r'\<rparr>)"
        using False by (simp add: BTree_insert_def Some tt ir two_t_nat [OF t tb])
      have hh: "height r' = height r" by (rule wf_height [OF t wf'])
      with res wf' ms so Some tt False show ?thesis
        by (intro exI [of _ "tr\<lparr>root := Some r'\<rparr>"])
           (simp add: tree_wf_def tree_inorder_def tree_height_def)
    next
      case True
      let ?cs = "(replicate (2 * t) None)[0 := Some r]"
      let ?s = "Node (int t) False 0 (replicate (2 * t - 1) (0::'a)) ?cs"
      have w: "wr (replicate (2 * t) None) 0 (Some r) = Some ?cs"
        using wr_nat [of 0 "replicate (2 * t) None" "Some r"] t by simp
      have ps: "node_n ?s = int 0" by simp
      have tk: "take (Suc 0) ?cs = [Some r]" "drop (Suc 0) ?cs = replicate (2 * t - 1) None"
        using t by (cases "2 * t"; simp)+
      have wfs: "wf_node (int t) (Suc (height r)) ?s"
        unfolding wf_Suc_iff [OF t ps] using t wfr True by (auto simp: tk)
      have inos: "inorder ?s = inorder r"
        using node_children_nat [OF ps] node_keys_nat [OF ps] tk
        by (simp add: inorder_internal)
      have leaf: "\<not> is_leaf ?s" by simp
      have nf: "0 < 2 * t - 1" using t by simp
      from split_if_full_wf [OF t tb wfs leaf ps nf, of 0 k] obtain nd1 j2 c1 n1 where
        sf: "split_if_full k (int 0 - 1) ?s = Some (nd1, int j2 - 1)"
        and wf1: "wf_node (int t) (Suc (height r)) nd1" and leaf1: "\<not> is_leaf nd1"
        and ino1: "inorder nd1 = inorder ?s" and pn1: "node_n nd1 = int n1"
        and j2: "j2 \<le> n1" and c1: "children nd1 ! j2 = Some c1"
        and small: "node_n c1 < 2 * int t - 1"
        and le2: "0 < j2 \<longrightarrow> node_keys nd1 ! (j2 - 1) \<le> k"
        and ge2: "j2 < n1 \<longrightarrow> k \<le> node_keys nd1 ! j2"
        by auto
      have r0: "rd ?cs 0 = Some (Some r)"
        using rd_nat [of 0 ?cs] t by simp
      from sf r0 True have "\<exists>m. split_child 0 ?s = Some nd1 \<and> rd (keys nd1) 0 = Some m \<and>
          (if m < k then 1 else 0) = int j2"
        by (auto simp: split_if_full_def bind_eq_Some_conv two_t_nat [OF t tb]
              split: if_splits)
      then obtain m where
        sp: "split_child 0 ?s = Some nd1" and m: "rd (keys nd1) 0 = Some m"
        and idx': "(if m < k then 1 else 0) = int j2"
        by blast
      note C = child_wf [OF t wf1 leaf1 pn1 j2 c1]
      from C(1) obtain nc where nc: "node_n c1 = int nc" by (rule wf_n)
      with small t have ncs: "nc < 2 * t - 1" by linarith
      from insert_non_full_wf [OF t tb C(1) nc ncs, of k] obtain c' where
        ic: "insert_non_full k c1 = Some c'" and wfc': "wf_node (int t) (height r) c'"
        and nc': "node_n c1 \<le> node_n c'"
        and msc: "mset (inorder c') = add_mset k (mset (inorder c1))"
        and soc: "sorted (inorder c1) \<longrightarrow> sorted (inorder c')"
        by blast
      let ?nd = "Node (node_t nd1) (is_leaf nd1) (node_n nd1) (keys nd1)
                   ((children nd1)[j2 := Some c'])"
      note R = replace_child_wf [OF t wf1 leaf1 pn1 j2 c1 le2 ge2 wfc' nc' msc soc refl]
      have res: "BTree_insert k tr = Some (tr\<lparr>root := Some ?nd\<rparr>)"
        using True w sp m idx' C(3) ic C(4) [of "Some c'"]
        by (simp add: BTree_insert_def Some tt new Let_def two_t_nat [OF t tb])
      have hh: "height ?nd = Suc (height r)" by (rule wf_height [OF t R(1)])
      with res R ino1 inos Some tt True show ?thesis
        by (intro exI [of _ "tr\<lparr>root := Some ?nd\<rparr>"])
           (simp add: tree_wf_def tree_inorder_def tree_height_def)
    qed
  qed
qed

lemma insert_all_wf:
  assumes t: "0 < t" and tb: "2 * int t \<le> INT_MAX"
  shows "tree_wf t tr \<Longrightarrow>
     \<exists>tr'. insert_all ks tr = Some tr' \<and> tree_wf t tr' \<and>
           mset (tree_inorder tr') = mset ks + mset (tree_inorder tr) \<and>
           (sorted (tree_inorder tr) \<longrightarrow> sorted (tree_inorder tr'))"
proof (induction ks arbitrary: tr)
  case Nil
  then show ?case by simp
next
  case (Cons k ks)
  from BTree_insert_wf [OF t tb Cons.prems, of k] obtain tr1 where
    a: "BTree_insert k tr = Some tr1" "tree_wf t tr1"
    "mset (tree_inorder tr1) = add_mset k (mset (tree_inorder tr))"
    "sorted (tree_inorder tr) \<longrightarrow> sorted (tree_inorder tr1)"
    by blast
  from Cons.IH [OF a(2)] obtain tr' where
    b: "insert_all ks tr1 = Some tr'" "tree_wf t tr'"
    "mset (tree_inorder tr') = mset ks + mset (tree_inorder tr1)"
    "sorted (tree_inorder tr1) \<longrightarrow> sorted (tree_inorder tr')"
    by blast
  from a b show ?case by (intro exI [of _ tr']) simp
qed

lemma BTree_wf: "tree_wf t (BTree (int t))"
  by (simp add: tree_wf_def BTree_def)

lemma BTree_traverse_wf:
  assumes "0 < t" and "tree_wf t tr"
  shows "BTree_traverse tr = Some (tree_inorder tr)"
proof (cases "root tr")
  case None
  then show ?thesis by (simp add: BTree_traverse_def tree_inorder_def)
next
  case (Some r)
  with assms(2) have "wf_node (int t) (height r) r" by (simp add: tree_wf_def)
  from traverse_wf [OF assms(1) this] Some show ?thesis
    by (simp add: BTree_traverse_def tree_inorder_def)
qed

lemma reachable_wf:
  assumes "0 < t" and "2 * int t \<le> INT_MAX"
  shows "\<exists>tr. insert_all ks (BTree (int t)) = Some tr \<and> tree_wf t tr \<and>
          mset (tree_inorder tr) = mset ks \<and> sorted (tree_inorder tr)"
  using insert_all_wf [OF assms BTree_wf, of ks]
  by (auto simp: tree_inorder_def BTree_def)

section \<open>BTreeNode::search on a well-formed, sorted node\<close>

lemma set_interleave:
  "length cs = Suc (length ks) \<Longrightarrow> set (interleave cs ks) = \<Union> (set ` set cs) \<union> set ks"
proof (induction cs ks rule: interleave.induct)
  case (1 ks)
  then show ?case by simp
next
  case (2 c cs)
  then show ?case by simp
next
  case (3 c cs k ks)
  then show ?case by auto
qed

lemma search_wf:
  assumes t: "0 < t"
  shows "wf_node (int t) h nd \<Longrightarrow> sorted (inorder nd) \<Longrightarrow>
     \<exists>res. BTreeNode_search k nd = Some res \<and> (res \<noteq> None \<longleftrightarrow> k \<in> set (inorder nd))"
proof (induction h arbitrary: nd)
  case 0
  then show ?case by simp
next
  case (Suc h)
  from Suc.prems(1) obtain n where pn: "node_n nd = int n" by (rule wf_n)
  note F = Suc.prems(1) [unfolded wf_Suc_iff [OF t pn]]
  from F t have lk: "length (keys nd) = 2 * t - 1" and lc: "length (children nd) = 2 * t"
    and n: "n \<le> 2 * t - 1" "n < 2 * t" by auto
  have nk: "node_keys nd = take n (keys nd)" by (rule node_keys_nat [OF pn])
  have nc: "node_children nd = take (Suc n) (children nd)" by (rule node_children_nat [OF pn])
  have lkn: "length (node_keys nd) = n" using nk n lk by simp
  have "n \<le> length (keys nd)" using n lk by simp
  from search_scan_closed [OF pn this, of 0 k] obtain i where i: "i \<le> n"
    and sc: "search_scan k nd 0 = Some (int i)"
    and lo: "\<forall>m. m < i \<longrightarrow> keys nd ! m < k"
    and hi: "i < n \<longrightarrow> k \<le> keys nd ! i"
    by auto
  have rk: "rd (keys nd) (int i) = Some (keys nd ! i)" if "i < n"
    using rd_nat [of i "keys nd"] that n lk by simp
  show ?case
  proof (cases "i < n \<and> keys nd ! i = k")
    case True
    then have res: "BTreeNode_search k nd = Some (Some nd)"
      using sc rk pn by (subst BTreeNode_search.simps) simp
    from True have "k \<in> set (node_keys nd)"
      using nk lkn by (auto simp: in_set_conv_nth intro!: exI [of _ i])
    moreover have "set (node_keys nd) \<subseteq> set (inorder nd)"
    proof (cases "is_leaf nd")
      case True
      then show ?thesis by (simp add: inorder_leaf)
    next
      case False
      have "length (map sub_inorder (node_children nd)) = Suc (length (node_keys nd))"
        using nc lkn n lc by simp
      from set_interleave [OF this] False show ?thesis
        by (simp add: inorder_internal)
    qed
    ultimately show ?thesis using res by auto
  next
    case nohit: False
    have hitF: "(if int i < node_n nd then do { x \<leftarrow> rd (keys nd) (int i); Some (x = k) }
                 else Some False) = Some False"
      using nohit rk pn by auto
    show ?thesis
    proof (cases "is_leaf nd")
      case True
      have res: "BTreeNode_search k nd = Some None"
        using sc hitF True by (subst BTreeNode_search.simps) simp
      have "k \<notin> set (inorder nd)"
      proof
        assume "k \<in> set (inorder nd)"
        with True have "k \<in> set (node_keys nd)" by (simp add: inorder_leaf)
        then obtain m where m: "m < n" "node_keys nd ! m = k"
          using lkn by (auto simp: in_set_conv_nth)
        then have km: "keys nd ! m = k" using nk by simp
        show False
        proof (cases "m < i")
          case True
          with lo km show False by auto
        next
          case False
          with m have "i < n" "i \<le> m" by auto
          from Suc.prems(2) True have "sorted (node_keys nd)" by (simp add: inorder_leaf)
          then have "node_keys nd ! i \<le> node_keys nd ! m"
            using \<open>i \<le> m\<close> m lkn by (intro sorted_nth_mono) auto
          with nk \<open>i < n\<close> m have "keys nd ! i \<le> k" by simp
          with hi \<open>i < n\<close> have "keys nd ! i = k" by auto
          with nohit \<open>i < n\<close> show False by simp
        qed
      qed
      with res show ?thesis by simp
    next
      case False
      from F False have good: "\<forall>co\<in>set (take (Suc n) (children nd)).
                 \<exists>c. co = Some c \<and> wf_node (int t) h c"
        by auto
      have "children nd ! i \<in> set (take (Suc n) (children nd))"
        using i n lc by (auto simp: in_set_conv_nth intro!: exI [of _ i])
      with good obtain c where c: "children nd ! i = Some c" and wfc: "wf_node (int t) h c"
        by auto
      have rc: "rd (children nd) (int i) = Some (Some c)"
        using rd_nat [of i "children nd"] i n lc c by simp
      have res: "BTreeNode_search k nd = BTreeNode_search k c"
        using sc hitF False rc by (subst BTreeNode_search.simps) simp
      let ?lc = "map sub_inorder (node_children nd)"
      let ?lk = "node_keys nd"
      let ?pre = "interleave (take i ?lc) (take i ?lk)"
      let ?post = "interleave ([] # drop (Suc i) ?lc) (drop i ?lk)"
      have len: "length ?lc = Suc (length ?lk)" using nc lkn n lc by simp
      have il: "i \<le> length ?lk" using i lkn by simp
      have "?lc ! i = inorder c" using c i n lc nc by simp
      with inter_split_child [OF len il] False
      have ino: "inorder nd = ?pre @ inorder c @ ?post" by (simp add: inorder_internal)
      with Suc.prems(2) have sp: "sorted ?pre" and sm: "sorted (inorder c)"
        and spo: "sorted ?post" by (simp_all add: sorted_append)
      have npre: "k \<notin> set ?pre"
      proof (cases "0 < i")
        case False
        then show ?thesis by simp
      next
        case True
        have "i \<le> length ?lc" using len il by simp
        from inter_pre_last [OF True il this] obtain xs where
          xs: "?pre = xs @ [?lk ! (i - 1)]" by blast
        with sp have "\<forall>x\<in>set ?pre. x \<le> ?lk ! (i - 1)" by (auto simp: sorted_append)
        moreover have "?lk ! (i - 1) < k" using lo True i nk by simp
        ultimately show ?thesis by auto
      qed
      have npost: "k \<notin> set ?post"
      proof (cases "i < n")
        case False
        with i lkn have "drop i ?lk = []" by simp
        then show ?thesis by simp
      next
        case True
        with lkn have "i < length ?lk" by simp
        from inter_post_first [OF this] have
          "?post = ?lk ! i # interleave (drop (Suc i) ?lc) (drop (Suc i) ?lk)" .
        with spo have "\<forall>y\<in>set ?post. ?lk ! i \<le> y" by auto
        moreover have "k < ?lk ! i" using hi nohit True nk by auto
        ultimately show ?thesis by auto
      qed
      from Suc.IH [OF wfc sm] obtain r where
        "BTreeNode_search k c = Some r" "r \<noteq> None \<longleftrightarrow> k \<in> set (inorder c)" by blast
      with res ino npre npost show ?thesis by simp
    qed
  qed
qed

lemma BTree_search_wf:
  assumes "0 < t" and "tree_wf t tr" and "sorted (tree_inorder tr)"
  shows "BTree_search k tr = Some (k \<in> set (tree_inorder tr))"
proof (cases "root tr")
  case None
  then show ?thesis by (simp add: BTree_search_def tree_inorder_def)
next
  case (Some r)
  with assms have "wf_node (int t) (height r) r" "sorted (inorder r)"
    by (simp_all add: tree_wf_def tree_inorder_def)
  from search_wf [OF assms(1) this, of k] Some show ?thesis
    by (auto simp: BTree_search_def tree_inorder_def)
qed

section \<open>The tree after a search\<close>

text \<open>
  A search hands back the node it was called on: the scan and the comparison only read,
  and the child that comes back from the recursive call is the child that was in the
  slot. Its result is that of \<open>BTreeNode_search\<close>, and it is defined when that is.
\<close>

lemma wr_same: "rd xs i = Some x \<Longrightarrow> wr xs i x = Some xs"
  by (auto simp: rd_def wr_def split: if_splits)

lemma BTreeNode_search_st_eq:
  "BTreeNode_search_st k nd = map_option (\<lambda>r. (r, nd)) (BTreeNode_search k nd)"
proof (induction k nd rule: BTreeNode_search.induct)
  case (1 k nd)
  let ?hit = "\<lambda>i. if i < node_n nd then do { x \<leftarrow> rd (keys nd) i; Some (x = k) }
                  else Some False"
  show ?case
  proof (cases "search_scan k nd 0")
    case None
    then show ?thesis
      by (subst BTreeNode_search_st.simps, subst BTreeNode_search.simps) simp
  next
    case (Some i)
    show ?thesis
    proof (cases "?hit i")
      case None
      with Some show ?thesis
        by (subst BTreeNode_search_st.simps, subst BTreeNode_search.simps) simp
    next
      case hit: (Some h)
      show ?thesis
      proof (cases "h \<or> is_leaf nd")
        case True
        with Some hit show ?thesis
          by (subst BTreeNode_search_st.simps, subst BTreeNode_search.simps) auto
      next
        case False
        then have nh: "\<not> h" and nl: "\<not> is_leaf nd" by simp_all
        show ?thesis
        proof (cases "rd (children nd) i")
          case None
          with Some hit nh nl show ?thesis
            by (subst BTreeNode_search_st.simps, subst BTreeNode_search.simps) simp
        next
          case co: (Some co)
          show ?thesis
          proof (cases co)
            case None
            with Some hit nh nl co show ?thesis
              by (subst BTreeNode_search_st.simps, subst BTreeNode_search.simps) simp
          next
            case c: (Some c)
            from "1.IH" [OF Some hit nh nl co c]
            have IH: "BTreeNode_search_st k c = map_option (\<lambda>r. (r, c)) (BTreeNode_search k c)" .
            from co c have w: "wr (children nd) i (Some c) = Some (children nd)"
              by (simp add: wr_same)
            have l: "BTreeNode_search_st k nd =
                     do { r \<leftarrow> BTreeNode_search_st k c;
                          cs \<leftarrow> wr (children nd) i (Some (snd r));
                          Some (fst r, Node (node_t nd) (is_leaf nd) (node_n nd) (keys nd) cs) }"
              using Some hit nh nl co c by (subst BTreeNode_search_st.simps) simp
            have r: "BTreeNode_search k nd = BTreeNode_search k c"
              using Some hit nh nl co c by (subst BTreeNode_search.simps) simp
            show ?thesis
              unfolding l r IH using w by (cases "BTreeNode_search k c") simp_all
          qed
        qed
      qed
    qed
  qed
qed

lemma BTree_search_st_eq:
  "BTree_search_st k tr = map_option (\<lambda>b. (b, tr)) (BTree_search k tr)"
proof (cases "root tr")
  case None
  then show ?thesis by (simp add: BTree_search_st_def BTree_search_def)
next
  case (Some r)
  then have "tr\<lparr>root := Some r\<rparr> = tr" by simp
  with Some show ?thesis
    by (cases "BTreeNode_search k r")
       (simp_all add: BTree_search_st_def BTree_search_def BTreeNode_search_st_eq)
qed

section \<open>Every node of a well-formed tree\<close>

lemma nodes_of_iff:
  "nd \<in> set (nodes_of r) \<longleftrightarrow>
     nd = r \<or> (\<not> is_leaf r \<and> (\<exists>c. Some c \<in> set (children r) \<and> nd \<in> set (nodes_of c)))"
  by (subst nodes_of.simps) (auto split: option.splits)

lemma tl_nodes_of_iff:
  "nd \<in> set (tl (nodes_of r)) \<longleftrightarrow>
     \<not> is_leaf r \<and> (\<exists>c. Some c \<in> set (children r) \<and> nd \<in> set (nodes_of c))"
  by (subst nodes_of.simps) (auto split: option.splits)

lemma wf_child_index:
  assumes t: "0 < t" and wf: "wf_node (int t) (Suc h) r" and leaf: "\<not> is_leaf r"
    and pn: "node_n r = int n" and c: "Some c \<in> set (children r)"
  shows "\<exists>i\<le>n. children r ! i = Some c"
proof -
  note F = wf [unfolded wf_Suc_iff [OF t pn]]
  from F leaf have null: "\<forall>co\<in>set (drop (Suc n) (children r)). co = None" by auto
  from c have "Some c \<in> set (take (Suc n) (children r)) \<or> Some c \<in> set (drop (Suc n) (children r))"
    by (metis Un_iff append_take_drop_id set_append)
  with null have "Some c \<in> set (take (Suc n) (children r))" by auto
  then obtain i where "i < length (take (Suc n) (children r))"
    "take (Suc n) (children r) ! i = Some c"
    by (auto simp: in_set_conv_nth)
  then show ?thesis by (intro exI [of _ i]) auto
qed

lemma wf_child_split:
  assumes t: "0 < t" and wf: "wf_node (int t) (Suc h) r" and leaf: "\<not> is_leaf r"
    and pn: "node_n r = int n" and i: "i \<le> n" and c: "children r ! i = Some c"
  shows "wf_node (int t) h c" and "int t - 1 \<le> node_n c"
    and "\<exists>pre post. inorder r = pre @ inorder c @ post \<and>
           (0 < i \<longrightarrow> pre \<noteq> [] \<and> last pre = keys r ! (i - 1)) \<and>
           (i < n \<longrightarrow> post \<noteq> [] \<and> hd post = keys r ! i)"
proof -
  note C = child_wf [OF t wf leaf pn i c]
  from C show "wf_node (int t) h c" "int t - 1 \<le> node_n c" by auto
  note F = wf [unfolded wf_Suc_iff [OF t pn]]
  from F t have lk: "length (keys r) = 2 * t - 1" and lc: "length (children r) = 2 * t"
    and n: "n \<le> 2 * t - 1" "n < 2 * t" by auto
  have nk: "node_keys r = take n (keys r)" by (rule node_keys_nat [OF pn])
  have nc: "node_children r = take (Suc n) (children r)" by (rule node_children_nat [OF pn])
  have lkn: "length (node_keys r) = n" using nk n lk by simp
  let ?lc = "map sub_inorder (node_children r)"
  let ?lk = "node_keys r"
  let ?pre = "interleave (take i ?lc) (take i ?lk)"
  let ?post = "interleave ([] # drop (Suc i) ?lc) (drop i ?lk)"
  have len: "length ?lc = Suc (length ?lk)" using nc lkn n lc by simp
  have il: "i \<le> length ?lk" using i lkn by simp
  have "?lc ! i = inorder c" using c i n lc nc by simp
  with inter_split_child [OF len il] leaf
  have ino: "inorder r = ?pre @ inorder c @ ?post" by (simp add: inorder_internal)
  have a: "?pre \<noteq> [] \<and> last ?pre = keys r ! (i - 1)" if "0 < i"
  proof -
    have "i \<le> length ?lc" using len il by simp
    from inter_pre_last [OF that il this] obtain xs where
      "?pre = xs @ [?lk ! (i - 1)]" by blast
    moreover have "?lk ! (i - 1) = keys r ! (i - 1)" using that i nk by simp
    ultimately show ?thesis by simp
  qed
  have b: "?post \<noteq> [] \<and> hd ?post = keys r ! i" if "i < n"
  proof -
    from that lkn have "i < length ?lk" by simp
    from inter_post_first [OF this] that nk show ?thesis by simp
  qed
  from ino a b show "\<exists>pre post. inorder r = pre @ inorder c @ post \<and>
           (0 < i \<longrightarrow> pre \<noteq> [] \<and> last pre = keys r ! (i - 1)) \<and>
           (i < n \<longrightarrow> post \<noteq> [] \<and> hd post = keys r ! i)"
    by blast
qed

lemma all_nodes_wf:
  assumes t: "0 < t"
  shows "wf_node (int t) h r \<Longrightarrow> sorted_wrt R (inorder r) \<Longrightarrow> nd \<in> set (nodes_of r) \<Longrightarrow>
     (\<exists>h'. wf_node (int t) h' nd) \<and> sorted_wrt R (inorder nd) \<and>
     (nd \<in> set (tl (nodes_of r)) \<longrightarrow> int t - 1 \<le> node_n nd)"
proof (induction h arbitrary: r)
  case 0
  then show ?case by simp
next
  case (Suc h)
  from Suc.prems(1) obtain n where pn: "node_n r = int n" by (rule wf_n)
  have deep: "(\<exists>h'. wf_node (int t) h' nd) \<and> sorted_wrt R (inorder nd) \<and> int t - 1 \<le> node_n nd"
    if leaf: "\<not> is_leaf r" and c: "Some c \<in> set (children r)" and nd: "nd \<in> set (nodes_of c)"
    for c
  proof -
    from wf_child_index [OF t Suc.prems(1) leaf pn c] obtain i where
      i: "i \<le> n" "children r ! i = Some c" by blast
    note S = wf_child_split [OF t Suc.prems(1) leaf pn i]
    from S(3) Suc.prems(2) have so: "sorted_wrt R (inorder c)"
      by (auto simp: sorted_wrt_append)
    from Suc.IH [OF S(1) so nd] have
      ih: "(\<exists>h'. wf_node (int t) h' nd) \<and> sorted_wrt R (inorder nd) \<and>
           (nd \<in> set (tl (nodes_of c)) \<longrightarrow> int t - 1 \<le> node_n nd)" .
    from nd have "nd = c \<or> nd \<in> set (tl (nodes_of c))"
      by (subst (asm) nodes_of.simps) (subst nodes_of.simps, auto)
    with ih S(2) show ?thesis by auto
  qed
  show ?case
  proof (cases "nd \<in> set (tl (nodes_of r))")
    case True
    with deep show ?thesis by (auto simp: tl_nodes_of_iff)
  next
    case False
    from Suc.prems(3) have "nd = r \<or> nd \<in> set (tl (nodes_of r))"
      by (subst (asm) nodes_of.simps) (subst nodes_of.simps, auto)
    with False have "nd = r" by simp
    with False Suc.prems(1,2) show ?thesis by auto
  qed
qed

section \<open>Bounds on the keys of a child subtree\<close>

lemma subtree_keys_iff:
  "x \<in> set (subtree_keys c) \<longleftrightarrow> (\<exists>nd\<in>set (nodes_of c). x \<in> set (node_keys nd))"
  by (auto simp: subtree_keys_def)

lemma subtree_keys_inorder:
  assumes t: "0 < t"
  shows "wf_node (int t) h c \<Longrightarrow> set (subtree_keys c) = set (inorder c)"
proof (induction h arbitrary: c)
  case 0
  then show ?case by simp
next
  case (Suc h)
  from Suc.prems obtain n where pn: "node_n c = int n" by (rule wf_n)
  note F = Suc.prems [unfolded wf_Suc_iff [OF t pn]]
  show ?case
  proof (cases "is_leaf c")
    case True
    have "nodes_of c = [c]" using True by (subst nodes_of.simps) simp
    with True show ?thesis by (simp add: subtree_keys_def inorder_leaf)
  next
    case False
    from F t have lk: "length (keys c) = 2 * t - 1" and lc: "length (children c) = 2 * t"
      and n: "n \<le> 2 * t - 1" "n < 2 * t" by auto
    from F False have good: "\<forall>co\<in>set (take (Suc n) (children c)).
                 \<exists>d. co = Some d \<and> wf_node (int t) h d"
      and null: "\<forall>co\<in>set (drop (Suc n) (children c)). co = None" by auto
    have nc: "node_children c = take (Suc n) (children c)" by (rule node_children_nat [OF pn])
    have nk: "node_keys c = take n (keys c)" by (rule node_keys_nat [OF pn])
    have kids: "Some d \<in> set (children c) \<longleftrightarrow> Some d \<in> set (node_children c)" for d
    proof -
      have "set (children c) = set (take (Suc n) (children c)) \<union> set (drop (Suc n) (children c))"
        by (metis append_take_drop_id set_append)
      with null nc show ?thesis by auto
    qed
    have ih: "set (subtree_keys d) = set (inorder d)" if "Some d \<in> set (node_children c)" for d
      using that good nc Suc.IH [of d] by auto
    have len: "length (map sub_inorder (node_children c)) = Suc (length (node_keys c))"
      using nc nk n lk lc by simp
    have "set (inorder c) =
        \<Union> (set ` set (map sub_inorder (node_children c))) \<union> set (node_keys c)"
      using set_interleave [OF len] False by (simp add: inorder_internal)
    also have "\<Union> (set ` set (map sub_inorder (node_children c))) =
        (\<Union>d\<in>{d. Some d \<in> set (node_children c)}. set (inorder d))"
    proof (intro set_eqI iffI)
      fix x assume "x \<in> \<Union> (set ` set (map sub_inorder (node_children c)))"
      then obtain co where co: "co \<in> set (node_children c)" "x \<in> set (sub_inorder co)"
        by auto
      then obtain d where "co = Some d" by (cases co) auto
      with co show "x \<in> (\<Union>d\<in>{d. Some d \<in> set (node_children c)}. set (inorder d))"
        by auto
    next
      fix x assume "x \<in> (\<Union>d\<in>{d. Some d \<in> set (node_children c)}. set (inorder d))"
      then obtain d where "Some d \<in> set (node_children c)" "x \<in> set (inorder d)" by auto
      then have "set (sub_inorder (Some d)) \<in> set ` set (map sub_inorder (node_children c))"
        "x \<in> set (sub_inorder (Some d))"
        by (auto intro!: image_eqI [where x = "inorder d"] image_eqI [where x = "Some d"])
      then show "x \<in> \<Union> (set ` set (map sub_inorder (node_children c)))" by blast
    qed
    finally have R: "set (inorder c) =
        (\<Union>d\<in>{d. Some d \<in> set (node_children c)}. set (inorder d)) \<union> set (node_keys c)" .
    have L: "set (subtree_keys c) =
        set (node_keys c) \<union> (\<Union>d\<in>{d. Some d \<in> set (node_children c)}. set (subtree_keys d))"
    proof (intro set_eqI iffI)
      fix x assume "x \<in> set (subtree_keys c)"
      then obtain nd where nd: "nd \<in> set (nodes_of c)" "x \<in> set (node_keys nd)"
        by (auto simp: subtree_keys_iff)
      from nd(1) have "nd = c \<or> (\<exists>d. Some d \<in> set (children c) \<and> nd \<in> set (nodes_of d))"
        by (subst (asm) nodes_of_iff) auto
      with nd(2) kids show "x \<in> set (node_keys c) \<union>
          (\<Union>d\<in>{d. Some d \<in> set (node_children c)}. set (subtree_keys d))"
        by (auto simp: subtree_keys_iff)
    next
      fix x assume "x \<in> set (node_keys c) \<union>
          (\<Union>d\<in>{d. Some d \<in> set (node_children c)}. set (subtree_keys d))"
      then consider "x \<in> set (node_keys c)"
        | d nd where "Some d \<in> set (node_children c)" "nd \<in> set (nodes_of d)"
            "x \<in> set (node_keys nd)"
        by (auto simp: subtree_keys_iff)
      then show "x \<in> set (subtree_keys c)"
      proof cases
        case 1
        have "c \<in> set (nodes_of c)" by (subst nodes_of_iff) simp
        with 1 show ?thesis by (auto simp: subtree_keys_iff)
      next
        case 2
        with kids False have "nd \<in> set (nodes_of c)"
          by (subst nodes_of_iff) auto
        with 2 show ?thesis by (auto simp: subtree_keys_iff)
      qed
    qed
    show ?thesis unfolding L R using ih by auto
  qed
qed

lemma child_bounds_wf:
  assumes t: "0 < t" and wf: "wf_node (int t) h p" and so: "sorted_wrt R (inorder p)"
  shows "child_bounds R p"
proof -
  from wf obtain h' n where h: "h = Suc h'" and pn: "node_n p = int n" by (rule wf_n)
  note F = wf [unfolded h wf_Suc_iff [OF t pn]]
  from F t have lc: "length (children p) = 2 * t" and n: "n < 2 * t" by auto
  have n1: "nat (int n + 1) = Suc n" by linarith
  have main: "(int i < int n \<longrightarrow> R x (keys p ! i)) \<and> (0 < i \<longrightarrow> R (keys p ! (i - 1)) x)"
    if i: "i \<le> n" and c: "rd (children p) (int i) = Some (Some c)"
      and x: "x \<in> set (subtree_keys c)" for i c x
  proof -
    from c i n lc have ci: "children p ! i = Some c" by (simp add: rd_def)
    have leaf: "\<not> is_leaf p"
    proof
      assume "is_leaf p"
      with F have "\<forall>co\<in>set (children p). co = None" by simp
      moreover have "children p ! i \<in> set (children p)" using i n lc by simp
      ultimately show False using ci by auto
    qed
    note S = wf_child_split [OF t wf [unfolded h] leaf pn i ci]
    from S(3) obtain pre post where ino: "inorder p = pre @ inorder c @ post"
      and a: "0 < i \<longrightarrow> pre \<noteq> [] \<and> last pre = keys p ! (i - 1)"
      and b: "i < n \<longrightarrow> post \<noteq> [] \<and> hd post = keys p ! i"
      by blast
    from x subtree_keys_inorder [OF t S(1)] have xin: "x \<in> set (inorder c)" by simp
    from so ino have lo: "\<forall>y\<in>set pre. R y x" and hi: "\<forall>y\<in>set post. R x y"
      using xin by (auto simp: sorted_wrt_append)
    have "R x (keys p ! i)" if "i < n"
    proof -
      from b that have "post \<noteq> []" "hd post = keys p ! i" by auto
      with hd_in_set [of post] hi show ?thesis by auto
    qed
    moreover have "R (keys p ! (i - 1)) x" if "0 < i"
    proof -
      from a that have "pre \<noteq> []" "last pre = keys p ! (i - 1)" by auto
      with last_in_set [of pre] lo show ?thesis by auto
    qed
    ultimately show ?thesis by simp
  qed
  show ?thesis
    unfolding child_bounds_def list_all_iff pn n1
  proof
    fix i assume "i \<in> set [0..<Suc n]"
    then have i: "i \<le> n" by auto
    show "case rd (children p) (int i) of None \<Rightarrow> True | Some None \<Rightarrow> True
          | Some (Some c) \<Rightarrow>
              \<forall>x\<in>set (subtree_keys c).
                 (int i < int n \<longrightarrow> R x (keys p ! i)) \<and> (0 < i \<longrightarrow> R (keys p ! (i - 1)) x)"
      using main [OF i] by (auto split: option.splits)
  qed
qed

lemma nonnull_count:
  assumes t: "0 < t" and wf: "wf_node (int t) h nd" and leaf: "\<not> is_leaf nd"
  shows "length (filter (\<lambda>c. c \<noteq> None) (children nd)) = nat (node_n nd + 1)"
proof -
  from wf obtain h' n where h: "h = Suc h'" and pn: "node_n nd = int n" by (rule wf_n)
  note F = wf [unfolded h wf_Suc_iff [OF t pn]]
  from F t have lc: "length (children nd) = 2 * t" and n: "n < 2 * t" by auto
  from F leaf have good: "\<forall>co\<in>set (take (Suc n) (children nd)). co \<noteq> None"
    and null: "\<forall>co\<in>set (drop (Suc n) (children nd)). co = None" by auto
  have "filter (\<lambda>c. c \<noteq> None) (children nd) =
        filter (\<lambda>c. c \<noteq> None) (take (Suc n) (children nd)) @
        filter (\<lambda>c. c \<noteq> None) (drop (Suc n) (children nd))"
    by (metis append_take_drop_id filter_append)
  also have "filter (\<lambda>c. c \<noteq> None) (take (Suc n) (children nd)) = take (Suc n) (children nd)"
    using good by (simp add: filter_id_conv)
  also have "filter (\<lambda>c. c \<noteq> None) (drop (Suc n) (children nd)) = []"
    using null by (simp add: filter_empty_conv)
  finally have "length (filter (\<lambda>c. c \<noteq> None) (children nd)) = Suc n"
    using lc n by simp
  moreover have "nat (int n + 1) = Suc n" by linarith
  ultimately show ?thesis by (simp only: pn)
qed

section \<open>Two scenarios of the tests\<close>

text \<open>
  C7 (scenario B): with \<open>t = 2\<close>, after the inserts 1, 2, 3, 4 the root holds the one
  key 2, its two children are leaves that hold \<open>[1]\<close> and \<open>[3, 4]\<close>, and the traversal is
  \<open>[1, 2, 3, 4]\<close>.
\<close>

theorem scenario_B_root_split:
  "(case insert_all [1, 2, 3, 4 :: int] (BTree 2) of
      None \<Rightarrow> False
    | Some tr \<Rightarrow>
       (case root tr of
          None \<Rightarrow> False
        | Some r \<Rightarrow>
            node_n r = 1 \<and> node_keys r = [2] \<and> \<not> is_leaf r \<and>
            map (map_option node_keys) (node_children r) = [Some [1], Some [3, 4]] \<and>
            map (map_option is_leaf) (node_children r) = [Some True, Some True]) \<and>
       BTree_traverse tr = Some [1, 2, 3, 4])"
  by code_simp

text \<open>
  C8 (scenario C): with \<open>t = 3\<close>, after the inserts 10, 20, 10 the traversal is
  \<open>[10, 10, 20]\<close>, the duplicate kept, and the searches for 10 and for 20 both succeed.
\<close>

theorem scenario_C_duplicates:
  "(case insert_all [10, 20, 10 :: int] (BTree 3) of
      None \<Rightarrow> False
    | Some tr \<Rightarrow>
        BTree_traverse tr = Some [10, 10, 20] \<and>
        BTree_search 10 tr = Some True \<and>
        BTree_search 20 tr = Some True)"
  by code_simp

section \<open>Splitting a full child\<close>

text \<open>
  C5, as amended. Let \<open>t\<close> be a degree with \<open>2 * t \<le> INT_MAX\<close>, let \<open>p\<close> be a node that is
  not full, with the arrays the constructor gives a node of degree \<open>t\<close>, and let \<open>y = p.children[i]\<close>, \<open>0 \<le> i \<le> p.n\<close>, be a full
  node of the same degree (\<open>y.n = 2t - 1\<close>). Then \<open>p.split_child(i, y)\<close> is defined, and
  afterwards \<open>y\<close> (still \<open>children[i]\<close>) holds its former lowest \<open>t - 1\<close> keys, the new
  node \<open>z = children[i + 1]\<close> holds the former keys \<open>t .. 2t - 2\<close> of \<open>y\<close>, the former key
  \<open>t - 1\<close> of \<open>y\<close> is \<open>p.keys[i]\<close>, between the keys that \<open>p\<close> had before and behind
  index \<open>i\<close>, and \<open>p.n\<close> has grown by one.
\<close>

theorem split_child_effect:
  fixes p y :: "'a::zero node"
  assumes t: "1 \<le> t" and tb: "2 * t \<le> INT_MAX" and pt: "node_t p = t" and yt: "node_t y = t"
    and lkp: "length (keys p) = nat (2 * t - 1)" and lcp: "length (children p) = nat (2 * t)"
    and lky: "length (keys y) = nat (2 * t - 1)" and lcy: "length (children y) = nat (2 * t)"
    and i0: "0 \<le> i" and ip: "i \<le> node_n p" and nf: "node_n p < 2 * t - 1"
    and y: "rd (children p) i = Some (Some y)" and full: "node_n y = 2 * t - 1"
  shows "\<exists>p' y' z.
           split_child i p = Some p' \<and>
           rd (children p') i = Some (Some y') \<and>
           rd (children p') (i + 1) = Some (Some z) \<and>
           node_keys y' = take (nat (t - 1)) (node_keys y) \<and>
           length (node_keys y') = nat (t - 1) \<and>
           node_keys z = drop (nat t) (node_keys y) \<and>
           length (node_keys z) = nat (t - 1) \<and>
           rd (keys p') i = Some (node_keys y ! nat (t - 1)) \<and>
           node_keys p' =
             take (nat i) (node_keys p) @ [node_keys y ! nat (t - 1)] @ drop (nat i) (node_keys p) \<and>
           node_n p' = node_n p + 1"
proof -
  define tt where "tt = nat t"
  have tt: "t = int tt" and tpos: "0 < tt" using t by (simp_all add: tt_def)
  obtain j where j: "i = int j" using i0 nonneg_int_cases by blast
  obtain n where n: "node_n p = int n" using i0 ip nonneg_int_cases [of "node_n p"] by auto
  have jn: "j \<le> n" using ip j n by simp
  have nn: "n < 2 * tt - 1" using nf n tt tpos by linarith
  have n1: "nat (2 * int tt - 1) = 2 * tt - 1" using tpos by linarith
  have n2: "nat (2 * int tt) = 2 * tt" by linarith
  have n3: "nat (int tt - 1) = tt - 1" by linarith
  have lens: "length (keys p) = 2 * tt - 1" "length (children p) = 2 * tt"
    "length (keys y) = 2 * tt - 1" "length (children y) = 2 * tt"
    using lkp lcp lky lcy by (simp_all only: tt n1 n2)
  have yj: "children p ! j = Some y"
    using y j by (simp add: rd_def split: if_splits)
  let ?m = "keys y ! (tt - 1)"
  let ?ks = "take j (keys p) @ [?m] @ take (n - j) (drop j (keys p)) @ drop (Suc n) (keys p)"
  let ?cs = "take j (children p) @ [Some (split_y tt y), Some (split_z tt y)] @
          take (n - j) (drop (Suc j) (children p)) @ drop (n + 2) (children p)"
  let ?p = "Node (int tt) (is_leaf p) (int n + 1) ?ks ?cs"
  have sp: "split_child (int j) p = Some ?p"
    by (rule split_child_closed [OF tpos tb [unfolded tt] pt [unfolded tt] n jn _ _ yj
              yt [unfolded tt]])
       (use nn lens in auto)
  have lA: "length (take j (keys p)) = j" "length (take j (children p)) = j"
    using jn nn lens by auto
  have lB: "length (take (n - j) (drop j (keys p))) = n - j"
    "length (take (n - j) (drop (Suc j) (children p))) = n - j"
    using jn nn lens by auto
  have n2': "n + 2 = Suc (Suc n)" by simp
  have cj: "?cs ! j = Some (split_y tt y)" "?cs ! Suc j = Some (split_z tt y)"
    unfolding n2' using take_drop_app4 (5,6) [OF lA(2) lB(2) jn] by simp_all
  have kj: "?ks ! j = ?m" by (rule take_drop_app4 (7) [OF lA(1) lB(1) jn])
  have lcs: "length ?cs = 2 * tt" using jn nn lens by simp
  have lks: "length ?ks = 2 * tt - 1" using jn nn lens by simp
  have r1: "rd (children ?p) (int j) = Some (Some (split_y tt y))"
    using rd_nat [of j ?cs] cj(1) lcs jn nn by simp
  have r2: "rd (children ?p) (int j + 1) = Some (Some (split_z tt y))"
    using rd_nat [of "Suc j" ?cs] cj(2) lcs jn nn by (simp add: add.commute)
  have ny: "node_n y = int (2 * tt - 1)" using full tt tpos by linarith
  have ky: "node_keys y = take (2 * tt - 1) (keys y)" by (rule node_keys_nat [OF ny])
  have kyl: "node_keys y = keys y" using ky lens by simp
  have nyy: "node_n (split_y tt y) = int (tt - 1)" "node_n (split_z tt y) = int (tt - 1)"
    using tpos by (auto simp: split_y_def split_z_def)
  have k1: "node_keys (split_y tt y) = take (tt - 1) (node_keys y)"
    using node_keys_nat [OF nyy(1)] kyl by (simp add: split_y_def)
  have k2: "node_keys (split_z tt y) = drop tt (node_keys y)"
  proof -
    have "2 * tt - 1 - tt = tt - 1" by simp
    then show ?thesis
      using node_keys_nat [OF nyy(2)] kyl lens by (simp add: split_z_def)
  qed
  have l1: "length (node_keys (split_y tt y)) = tt - 1"
    unfolding k1 kyl using lens tpos by simp
  have l2: "length (node_keys (split_z tt y)) = tt - 1"
    unfolding k2 kyl using lens tpos by simp
  have r3: "rd (keys ?p) (int j) = Some (node_keys y ! (tt - 1))"
    using rd_nat [of j ?ks] kj lks jn nn kyl by simp
  have pn': "node_n ?p = int (Suc n)" by simp
  have tk: "take (Suc n) ?ks = take j (keys p) @ [?m] @ take (n - j) (drop j (keys p))"
    by (rule take_drop_app4 (3) [OF lA(1) lB(1) jn])
  have kp: "node_keys ?p =
      take j (node_keys p) @ [node_keys y ! (tt - 1)] @ drop j (node_keys p)"
    using node_keys_nat [OF pn'] tk jn kyl by (simp add: node_keys_nat [OF n] drop_take)
  have np: "node_n ?p = node_n p + 1" using n by simp
  have e: "nat (int tt - 1) = tt - 1" "nat (int tt) = tt" "nat (int j) = j"
    by linarith+
  show ?thesis
    unfolding tt j e
  proof (rule exI [of _ ?p], rule exI [of _ "split_y tt y"], rule exI [of _ "split_z tt y"],
         intro conjI)
    show "split_child (int j) p = Some ?p" by (rule sp)
    show "rd (children ?p) (int j) = Some (Some (split_y tt y))" by (rule r1)
    show "rd (children ?p) (int j + 1) = Some (Some (split_z tt y))" by (rule r2)
    show "node_keys (split_y tt y) = take (tt - 1) (node_keys y)" by (rule k1)
    show "length (node_keys (split_y tt y)) = tt - 1" by (rule l1)
    show "node_keys (split_z tt y) = drop tt (node_keys y)" by (rule k2)
    show "length (node_keys (split_z tt y)) = tt - 1" by (rule l2)
    show "rd (keys ?p) (int j) = Some (node_keys y ! (tt - 1))" by (rule r3)
    show "node_keys ?p =
      take j (node_keys p) @ [node_keys y ! (tt - 1)] @ drop j (node_keys p)" by (rule kp)
    show "node_n ?p = node_n p + 1" by (rule np)
  qed
qed

theorem split_child_effect_witness:
  "\<exists>p' y' z.
     split_child 0 (Node 2 False 1 [5, 0, 0]
                      [Some (Node 2 True 3 [1, 2, 3 :: int] [None, None, None, None]),
                       Some (Node 2 True 1 [7, 0, 0] [None, None, None, None]), None, None])
       = Some p' \<and>
     rd (children p') 0 = Some (Some y') \<and> rd (children p') 1 = Some (Some z) \<and>
     node_keys y' = [1] \<and> node_keys z = [3] \<and> rd (keys p') 0 = Some 2 \<and>
     node_keys p' = [2, 5] \<and> node_n p' = 2"
proof -
  let ?y = "Node 2 True 3 [1, 2, 3 :: int] [None, None, None, None]"
  let ?p = "Node 2 False 1 [5, 0, 0]
              [Some ?y, Some (Node 2 True 1 [7, 0, 0] [None, None, None, None]), None, None]"
  have nk: "node_keys ?y = [1, 2, 3]" "node_keys ?p = [5]"
    by (simp_all add: node_keys_def)
  have "\<exists>p' y' z.
           split_child 0 ?p = Some p' \<and>
           rd (children p') 0 = Some (Some y') \<and>
           rd (children p') (0 + 1) = Some (Some z) \<and>
           node_keys y' = take (nat (2 - 1)) (node_keys ?y) \<and>
           length (node_keys y') = nat (2 - 1) \<and>
           node_keys z = drop (nat 2) (node_keys ?y) \<and>
           length (node_keys z) = nat (2 - 1) \<and>
           rd (keys p') 0 = Some (node_keys ?y ! nat (2 - 1)) \<and>
           node_keys p' =
             take (nat 0) (node_keys ?p) @ [node_keys ?y ! nat (2 - 1)] @
               drop (nat 0) (node_keys ?p) \<and>
           node_n p' = node_n ?p + 1"
    by (rule split_child_effect) (simp_all add: rd_def INT_MAX_def)
  then show ?thesis unfolding nk by auto
qed

text \<open>
  C5 as it is stated asks nothing of \<open>p\<close> but the full child. With \<open>t = 2\<close>, the inserts
  10, 20, 30, 40, 50, 60, 70, 5, 7, 80 leave a root with the three keys 20, 40, 60 whose
  first child holds the three keys 5, 7, 10: parent and child are both full, and
  \<open>split_child(0, y)\<close> on that root shifts \<open>children[3]\<close> to \<open>children[4]\<close>, outside
  the array, so that no node results.
\<close>

theorem split_child_full_parent_counterexample:
  "(case insert_all [10, 20, 30, 40, 50, 60, 70, 5, 7, 80 :: int] (BTree 2) of
      None \<Rightarrow> False
    | Some tr \<Rightarrow>
       (case root tr of
          None \<Rightarrow> False
        | Some p \<Rightarrow>
           (case rd (children p) 0 of
              Some (Some y) \<Rightarrow>
                node_n y = 2 * node_t p - 1 \<and> node_keys y = [5, 7, 10] \<and>
                node_n p = 2 * node_t p - 1 \<and> node_keys p = [20, 40, 60] \<and>
                split_child 0 p = None
            | _ \<Rightarrow> False)))"
  by code_simp

section \<open>Properties of every reachable tree\<close>

text \<open>
  The reachable trees of degree \<open>t\<close> are the results of \<open>insert_all ks (BTree t)\<close>. With
  \<open>2 \<le> t\<close> and \<open>2 * t \<le> INT_MAX\<close> every sequence of inserts is defined. With a larger
  \<open>t\<close> the first insert fails in the constructor of the root, and the empty tree is the
  only reachable one.
\<close>

lemma insert_big_degree: "\<not> 2 * t \<le> INT_MAX \<Longrightarrow> BTree_insert k (BTree t) = None"
  by (simp add: BTree_insert_def BTree_def new_node_def two_t_minus_1_def int_val_def)

lemma reachable_defined:
  fixes ks :: "'a::{linorder,zero} list"
  assumes "2 \<le> t" and "2 * t \<le> INT_MAX"
  shows "\<exists>tr. insert_all ks (BTree t) = Some tr"
proof -
  define tt where "tt = nat t"
  have tt: "t = int tt" "0 < tt" using assms by (simp_all add: tt_def)
  from assms(2) have "2 * int tt \<le> INT_MAX" unfolding tt(1) .
  from reachable_wf [OF tt(2) this, of ks] tt show ?thesis by auto
qed

lemma reachable_tree:
  fixes ks :: "'a::{linorder,zero} list"
  assumes "2 \<le> t" and "insert_all ks (BTree t) = Some tr"
  shows "\<exists>tt. t = int tt \<and> 0 < tt \<and> (2 * t \<le> INT_MAX \<longrightarrow> 2 * int tt \<le> INT_MAX) \<and>
           tree_wf tt tr \<and> mset (tree_inorder tr) = mset ks \<and> sorted (tree_inorder tr)"
proof -
  define tt where "tt = nat t"
  have tt: "t = int tt" "0 < tt" using assms by (simp_all add: tt_def)
  show ?thesis
  proof (cases "2 * t \<le> INT_MAX")
    case True
    then have "2 * int tt \<le> INT_MAX" unfolding tt(1) .
    from reachable_wf [OF tt(2) this, of ks] assms(2) tt show ?thesis by auto
  next
    case False
    have ks: "ks = []"
    proof (cases ks)
      case Nil
      then show ?thesis .
    next
      case (Cons k ks')
      with assms(2) insert_big_degree [OF False, of k] show ?thesis by simp
    qed
    with assms(2) have "tr = BTree t" by simp
    with tt ks False BTree_wf [of tt] show ?thesis
      by (auto simp: tree_inorder_def BTree_def)
  qed
qed

lemma sorted_same_mset:
  fixes xs ys :: "'a::linorder list"
  assumes "sorted xs" and "sorted ys" and "mset xs = mset ys"
  shows "xs = ys"
proof -
  from assms have "sort ys = xs" by (intro properties_for_sort) auto
  moreover from assms have "sort ys = ys" by (intro properties_for_sort) auto
  ultimately show ?thesis by simp
qed

text \<open>
  C2: in every tree reached by a sequence of inserts into an empty tree of degree
  \<open>t \<ge> 2\<close> the traversal is defined and yields a non-decreasing sequence; and when
  \<open>2 * t \<le> INT_MAX\<close>, every sequence of inserts reaches a tree.
\<close>

theorem traverse_sorted:
  fixes ks :: "'a::{linorder,zero} list"
  assumes "2 \<le> t"
  shows "(2 * t \<le> INT_MAX \<longrightarrow> (\<exists>tr. insert_all ks (BTree t) = Some tr)) \<and>
         (\<forall>tr. insert_all ks (BTree t) = Some tr \<longrightarrow>
               (\<exists>xs. BTree_traverse tr = Some xs \<and> sorted xs))"
proof (intro conjI impI allI)
  assume "2 * t \<le> INT_MAX"
  with assms show "\<exists>tr. insert_all ks (BTree t) = Some tr" by (rule reachable_defined)
next
  fix tr
  assume "insert_all ks (BTree t) = Some tr"
  from reachable_tree [OF assms this] obtain tt where
    tt: "0 < tt" and tr: "tree_wf tt tr" "sorted (tree_inorder tr)"
    by blast
  from BTree_traverse_wf [OF tt tr(1)] tr(2)
  show "\<exists>xs. BTree_traverse tr = Some xs \<and> sorted xs" by simp
qed

theorem traverse_sorted_witness:
  "\<exists>tr xs. insert_all [3, 1, 2, 1 :: int] (BTree 2) = Some tr \<and>
           BTree_traverse tr = Some xs \<and> sorted xs"
  using traverse_sorted [of 2 "[3, 1, 2, 1 :: int]"] by (auto simp: INT_MAX_def)

text \<open>
  C1, as amended: after any sequence of inserts into an empty tree of a degree \<open>t \<ge> 2\<close>
  with \<open>2 * t \<le> INT_MAX\<close>, every insert is defined, and the search for each inserted key
  is defined and returns true.
\<close>

theorem insert_then_search:
  fixes ks :: "'a::{linorder,zero} list"
  assumes "2 \<le> t" and "2 * t \<le> INT_MAX"
  shows "\<exists>tr. insert_all ks (BTree t) = Some tr \<and> (\<forall>k\<in>set ks. BTree_search k tr = Some True)"
proof -
  from reachable_defined [OF assms, of ks] obtain tr where
    ins: "insert_all ks (BTree t) = Some tr" ..
  from reachable_tree [OF assms(1) ins] obtain tt where
    tt: "0 < tt" and tr: "tree_wf tt tr" "mset (tree_inorder tr) = mset ks"
    "sorted (tree_inorder tr)"
    by blast
  from tr(2) have "set (tree_inorder tr) = set ks" by (rule mset_eq_setD)
  with BTree_search_wf [OF tt tr(1) tr(3)] ins show ?thesis by auto
qed

theorem insert_then_search_witness:
  "\<exists>tr. insert_all [5, 3, 8, 3, 1 :: int] (BTree 2) = Some tr \<and>
        (\<forall>k\<in>set [5, 3, 8, 3, 1]. BTree_search k tr = Some True)"
  using insert_then_search [of 2 "[5, 3, 8, 3, 1 :: int]"] by (simp add: INT_MAX_def)

text \<open>
  C1 as it is stated asks only for \<open>t \<ge> 2\<close>. With \<open>t = 1073741825\<close> the product \<open>2 * t\<close>
  is above \<open>INT_MAX\<close>: the first insert fails in the constructor of the root, and the
  tree, still empty, does not hold the key.
\<close>

theorem insert_then_search_counterexample:
  "2 \<le> (1073741825 :: int) \<and>
   insert_all [5 :: int] (BTree 1073741825) = None \<and>
   BTree_search (5 :: int) (BTree 1073741825) = Some False"
  by code_simp

text \<open>
  C10, as amended: in every tree reached with a degree \<open>t \<ge> 2\<close> with
  \<open>2 * t \<le> INT_MAX\<close>, \<open>insert(k)\<close> is defined and the traversal afterwards is the traversal before
  with \<open>k\<close> put in at its sorted position.
\<close>

theorem insert_adds_one_key:
  fixes ks :: "'a::{linorder,zero} list"
  assumes "2 \<le> t" and "2 * t \<le> INT_MAX"
  shows "\<exists>tr tr' xs. insert_all ks (BTree t) = Some tr \<and> BTree_traverse tr = Some xs \<and>
           BTree_insert k tr = Some tr' \<and> BTree_traverse tr' = Some (insort k xs)"
proof -
  from reachable_defined [OF assms, of ks] obtain tr where
    ins: "insert_all ks (BTree t) = Some tr" ..
  from reachable_tree [OF assms(1) ins] assms(2) obtain tt where
    tt: "0 < tt" "2 * int tt \<le> INT_MAX" and tr: "tree_wf tt tr" "sorted (tree_inorder tr)"
    by blast
  from BTree_insert_wf [OF tt tr(1), of k] tr(2) obtain tr' where
    tr': "BTree_insert k tr = Some tr'" "tree_wf tt tr'"
    "mset (tree_inorder tr') = add_mset k (mset (tree_inorder tr))" "sorted (tree_inorder tr')"
    by blast
  have "tree_inorder tr' = insort k (tree_inorder tr)"
    using tr'(3,4) tr(2) by (intro sorted_same_mset) (simp_all add: sorted_insort)
  with BTree_traverse_wf [OF tt(1) tr(1)] BTree_traverse_wf [OF tt(1) tr'(2)] ins tr'(1)
  show ?thesis by auto
qed

theorem insert_adds_one_key_witness:
  "\<exists>tr tr' xs. insert_all [5, 3, 8, 3, 1 :: int] (BTree 2) = Some tr \<and>
     BTree_traverse tr = Some xs \<and> BTree_insert 4 tr = Some tr' \<and>
     BTree_traverse tr' = Some (insort 4 xs)"
  using insert_adds_one_key [of 2 "[5, 3, 8, 3, 1 :: int]" 4] by (simp add: INT_MAX_def)

text \<open>
  C10 as it is stated asks only for \<open>t \<ge> 2\<close>. With \<open>t = 1073741825\<close> the empty tree is
  reachable and its traversal is empty, but \<open>insert(7)\<close> fails in the constructor of the
  root: no tree results whose traversal is \<open>[7]\<close>.
\<close>

theorem insert_adds_one_key_counterexample:
  "2 \<le> (1073741825 :: int) \<and>
   insert_all [] (BTree 1073741825) = Some (BTree 1073741825 :: int btree) \<and>
   BTree_traverse (BTree 1073741825 :: int btree) = Some [] \<and>
   BTree_insert (7 :: int) (BTree 1073741825) = None"
  by code_simp

text \<open>
  C6, as amended: in every tree reached with a degree \<open>t \<ge> 2\<close> with
  \<open>2 * t \<le> INT_MAX\<close>, \<open>insert\<close> is defined; into the empty tree it gives height 1, with a root that is
  not full it keeps the height, with a full root (\<open>root.n = 2t - 1\<close>) it adds exactly one
  to the height; the empty tree is the one of height 0; and each of the three
  operations is defined and leaves a tree that is not lower than the one before.
\<close>

theorem insert_height:
  fixes ks :: "'a::{linorder,zero} list"
  assumes "2 \<le> t" and "2 * t \<le> INT_MAX"
  shows "\<exists>tr. insert_all ks (BTree t) = Some tr \<and>
           (\<forall>k. \<exists>tr'. BTree_insert k tr = Some tr' \<and>
                  tree_height tr' =
                    (case root tr of
                       None \<Rightarrow> 1
                     | Some r \<Rightarrow> if node_n r = 2 * t - 1 then tree_height tr + 1
                                 else tree_height tr)) \<and>
           (tree_height tr = 0 \<longleftrightarrow> root tr = None) \<and>
           (\<forall>op. \<exists>out tr'. run_op op tr = Some (out, tr') \<and> tree_height tr \<le> tree_height tr')"
proof -
  from reachable_defined [OF assms, of ks] obtain tr where
    tr1: "insert_all ks (BTree t) = Some tr" ..
  from reachable_tree [OF assms(1) tr1] assms(2) obtain tt where
    tt: "t = int tt" "0 < tt" "2 * int tt \<le> INT_MAX"
    and tr: "tree_wf tt tr" "sorted (tree_inorder tr)"
    by blast
  have ins: "\<exists>tr'. BTree_insert k tr = Some tr' \<and>
                  tree_height tr' =
                    (case root tr of
                       None \<Rightarrow> 1
                     | Some r \<Rightarrow> if node_n r = 2 * t - 1 then tree_height tr + 1
                                 else tree_height tr)" for k
    using BTree_insert_wf [OF tt(2,3) tr(1), of k] unfolding tt(1) by blast
  have zero: "tree_height tr = 0 \<longleftrightarrow> root tr = None"
  proof (cases "root tr")
    case None
    then show ?thesis by (simp add: tree_height_def)
  next
    case (Some r)
    with tr(1) have "wf_node (int tt) (height r) r" by (simp add: tree_wf_def)
    then have "height r \<noteq> 0" by (cases "height r") auto
    with Some show ?thesis by (simp add: tree_height_def)
  qed
  have ops: "\<exists>out tr'. run_op op tr = Some (out, tr') \<and> tree_height tr \<le> tree_height tr'"
    for op
  proof (cases op)
    case (Insert k)
    from ins [of k] obtain tr' where
      "BTree_insert k tr = Some tr'" "tree_height tr \<le> tree_height tr'"
      using zero by (auto split: option.splits if_splits)
    with Insert show ?thesis by simp
  next
    case (Search k)
    from BTree_search_wf [OF tt(2) tr(1) tr(2), of k]
    have "BTree_search_st k tr = Some (k \<in> set (tree_inorder tr), tr)"
      by (simp add: BTree_search_st_eq)
    with Search show ?thesis by simp
  next
    case Traverse
    with BTree_traverse_wf [OF tt(2) tr(1)] show ?thesis by simp
  qed
  have insA: "\<forall>k. \<exists>tr'. BTree_insert k tr = Some tr' \<and>
                  tree_height tr' =
                    (case root tr of
                       None \<Rightarrow> 1
                     | Some r \<Rightarrow> if node_n r = 2 * t - 1 then tree_height tr + 1
                                 else tree_height tr)"
    by (intro allI) (rule ins)
  have opsA: "\<forall>op. \<exists>out tr'. run_op op tr = Some (out, tr') \<and>
                  tree_height tr \<le> tree_height tr'"
    by (intro allI) (rule ops)
  show ?thesis
    by (rule exI [of _ tr]) (intro conjI tr1 insA zero opsA)
qed

theorem insert_height_witness:
  "\<exists>tr. insert_all [1, 2, 3 :: int] (BTree 2) = Some tr \<and>
         (\<forall>k. \<exists>tr'. BTree_insert k tr = Some tr' \<and>
                  tree_height tr' =
                    (case root tr of
                       None \<Rightarrow> 1
                     | Some r \<Rightarrow> if node_n r = 2 * 2 - 1 then tree_height tr + 1
                                 else tree_height tr)) \<and>
         (tree_height tr = 0 \<longleftrightarrow> root tr = None) \<and>
         (\<forall>op. \<exists>out tr'. run_op op tr = Some (out, tr') \<and> tree_height tr \<le> tree_height tr')"
  using insert_height [of 2 "[1, 2, 3 :: int]"] by (simp add: INT_MAX_def)

text \<open>
  C6 as it is stated holds for every reachable tree. With \<open>t = 1073741825\<close> the empty
  tree, of height 0, is reachable, and the insert into it fails in the constructor of
  the root: no tree of height 1 results.
\<close>

theorem insert_height_counterexample:
  "2 \<le> (1073741825 :: int) \<and>
   insert_all [] (BTree 1073741825) = Some (BTree 1073741825 :: int btree) \<and>
   tree_height (BTree 1073741825 :: int btree) = 0 \<and>
   run_op (Insert (1 :: int)) (BTree 1073741825) = None"
  by code_simp

text \<open>
  C9: \<open>search(k)\<close> hands back the tree it was called on. If in some tree the search for
  \<open>k\<close> returns \<open>b\<close> and leaves the tree \<open>tr'\<close>, then \<open>tr'\<close> is the tree before the call, and
  any number \<open>m\<close> of searches for \<open>k\<close>, each run on the tree the one before it left,
  return \<open>b\<close> and end in the same tree. And if searches for any keys \<open>qs\<close>, run one after
  the other, leave the tree \<open>tr''\<close>, then \<open>tr''\<close> is the tree before them, with the same
  traversal.
\<close>

theorem search_frame:
  assumes "BTree_search_st k tr = Some (b, tr')"
    and "run_ops (map Search qs) tr = Some (outs, tr'')"
  shows "tr' = tr \<and>
         run_ops (replicate m (Search k)) tr = Some (replicate m (Found b), tr) \<and>
         tr'' = tr \<and> BTree_traverse tr'' = BTree_traverse tr"
proof -
  from assms(1) have same: "tr' = tr"
    by (auto simp: BTree_search_st_eq)
  with assms(1) have s: "BTree_search_st k tr = Some (b, tr)" by simp
  have rep: "run_ops (replicate m (Search k)) tr = Some (replicate m (Found b), tr)"
    using s by (induction m) simp_all
  from assms(2) have "tr'' = tr"
  proof (induction qs arbitrary: outs)
    case Nil
    then show ?case by simp
  next
    case (Cons q qs)
    from Cons.prems obtain r rs where r: "BTree_search_st q tr = Some r"
      and rs: "run_ops (map Search qs) (snd r) = Some rs" and t: "tr'' = snd rs"
      by (auto simp: bind_eq_Some_conv)
    from r have "snd r = tr" by (auto simp: BTree_search_st_eq)
    with rs have "run_ops (map Search qs) tr = Some (fst rs, snd rs)" by simp
    from Cons.IH [OF this [folded t]] show ?case .
  qed
  with same rep show ?thesis by simp
qed

theorem search_frame_witness:
  "run_ops (map Search [4, 9, 1])
     \<lparr>root = Some (Node 2 False 1 [2, 0, 0]
                [Some (Node 2 True 1 [1, 2, 3 :: int] [None, None, None, None]),
                 Some (Node 2 True 2 [3, 4, 0] [None, None, None, None]), None, None]),
      tree_t = 2\<rparr> =
   Some ([Found True, Found False, Found True],
     \<lparr>root = Some (Node 2 False 1 [2, 0, 0]
                [Some (Node 2 True 1 [1, 2, 3] [None, None, None, None]),
                 Some (Node 2 True 2 [3, 4, 0] [None, None, None, None]), None, None]),
      tree_t = 2\<rparr>) \<and>
   run_ops (replicate 3 (Search 4))
     \<lparr>root = Some (Node 2 False 1 [2, 0, 0]
                [Some (Node 2 True 1 [1, 2, 3 :: int] [None, None, None, None]),
                 Some (Node 2 True 2 [3, 4, 0] [None, None, None, None]), None, None]),
      tree_t = 2\<rparr> =
   Some (replicate 3 (Found True),
     \<lparr>root = Some (Node 2 False 1 [2, 0, 0]
                [Some (Node 2 True 1 [1, 2, 3] [None, None, None, None]),
                 Some (Node 2 True 2 [3, 4, 0] [None, None, None, None]), None, None]),
      tree_t = 2\<rparr>)"
proof -
  let ?tr = "\<lparr>root = Some (Node 2 False 1 [2, 0, 0]
                [Some (Node 2 True 1 [1, 2, 3 :: int] [None, None, None, None]),
                 Some (Node 2 True 2 [3, 4, 0] [None, None, None, None]), None, None]),
             tree_t = 2\<rparr>"
  have a: "BTree_search_st 4 ?tr = Some (True, ?tr)" by code_simp
  have b: "run_ops (map Search [4, 9, 1]) ?tr =
             Some ([Found True, Found False, Found True], ?tr)" by code_simp
  from search_frame [OF a b, of 3] have
    "run_ops (replicate 3 (Search 4)) ?tr = Some (replicate 3 (Found True), ?tr)"
    by (elim conjE)
  with b show ?thesis by (rule conjI)
qed

text \<open>
  C4: in every tree reached by inserts into an empty tree of degree \<open>t \<ge> 2\<close> the root
  holds between 0 and \<open>2t - 1\<close> keys, every other node between \<open>t - 1\<close> and \<open>2t - 1\<close>, and
  every internal node with \<open>n\<close> keys has exactly \<open>n + 1\<close> non-null child pointers, which
  are its first \<open>n + 1\<close>. The nodes of the tree are \<open>nodes_of\<close> the root, the root first.
  When \<open>2 * t \<le> INT_MAX\<close>, every sequence of inserts reaches a tree.
\<close>

theorem fanout_bounds:
  fixes ks :: "'a::{linorder,zero} list"
  assumes "2 \<le> t"
  shows "(2 * t \<le> INT_MAX \<longrightarrow> (\<exists>tr. insert_all ks (BTree t) = Some tr)) \<and>
         (\<forall>tr. insert_all ks (BTree t) = Some tr \<longrightarrow>
           (case root tr of
              None \<Rightarrow> True
            | Some r \<Rightarrow>
                0 \<le> node_n r \<and> node_n r \<le> 2 * t - 1 \<and>
                (\<forall>nd\<in>set (tl (nodes_of r)). t - 1 \<le> node_n nd \<and> node_n nd \<le> 2 * t - 1) \<and>
                (\<forall>nd\<in>set (nodes_of r). \<not> is_leaf nd \<longrightarrow>
                   length (filter (\<lambda>c. c \<noteq> None) (children nd)) = nat (node_n nd + 1) \<and>
                   (\<forall>c\<in>set (node_children nd). c \<noteq> None))))"
proof (intro conjI impI allI)
  assume "2 * t \<le> INT_MAX"
  with assms show "\<exists>tr. insert_all ks (BTree t) = Some tr" by (rule reachable_defined)
next
  fix tr
  assume "insert_all ks (BTree t) = Some tr"
  from reachable_tree [OF assms this] obtain tt where
    tt: "t = int tt" "0 < tt" and tr: "tree_wf tt tr" "sorted (tree_inorder tr)"
    by blast
  have range: "0 \<le> node_n nd \<and> node_n nd \<le> 2 * t - 1" if "wf_node (int tt) h nd" for h nd
  proof -
    from that obtain h' n where h: "h = Suc h'" and pn: "node_n nd = int n" by (rule wf_n)
    from that [unfolded h wf_Suc_iff [OF tt(2) pn]] tt pn show ?thesis by auto
  qed
  have kids: "\<forall>c\<in>set (node_children nd). c \<noteq> None"
    if "wf_node (int tt) h nd" "\<not> is_leaf nd" for h nd
  proof -
    from that(1) obtain h' n where h: "h = Suc h'" and pn: "node_n nd = int n" by (rule wf_n)
    from that(1) [unfolded h wf_Suc_iff [OF tt(2) pn]] that(2) node_children_nat [OF pn]
    show ?thesis by auto
  qed
  show "case root tr of
              None \<Rightarrow> True
            | Some r \<Rightarrow>
                0 \<le> node_n r \<and> node_n r \<le> 2 * t - 1 \<and>
                (\<forall>nd\<in>set (tl (nodes_of r)). t - 1 \<le> node_n nd \<and> node_n nd \<le> 2 * t - 1) \<and>
                (\<forall>nd\<in>set (nodes_of r). \<not> is_leaf nd \<longrightarrow>
                   length (filter (\<lambda>c. c \<noteq> None) (children nd)) = nat (node_n nd + 1) \<and>
                   (\<forall>c\<in>set (node_children nd). c \<noteq> None))"
  proof (cases "root tr")
    case None
    then show ?thesis by simp
  next
    case (Some r)
    with tr have wf: "wf_node (int tt) (height r) r" and so: "sorted_wrt (\<le>) (inorder r)"
      by (simp_all add: tree_wf_def tree_inorder_def)
    note A = all_nodes_wf [OF tt(2) wf so]
    have "t - 1 \<le> node_n nd \<and> node_n nd \<le> 2 * t - 1" if "nd \<in> set (tl (nodes_of r))" for nd
    proof -
      from that have "nd \<in> set (nodes_of r)" by (rule list.set_sel(2) [rotated]) (subst nodes_of.simps, simp)
      from A [OF this] that range tt show ?thesis by auto
    qed
    moreover have "length (filter (\<lambda>c. c \<noteq> None) (children nd)) = nat (node_n nd + 1) \<and>
                   (\<forall>c\<in>set (node_children nd). c \<noteq> None)"
      if "nd \<in> set (nodes_of r)" "\<not> is_leaf nd" for nd
    proof -
      from A [OF that(1)] obtain h' where "wf_node (int tt) h' nd" by blast
      from nonnull_count [OF tt(2) this that(2)] kids [OF this that(2)] show ?thesis by simp
    qed
    ultimately show ?thesis using Some range [OF wf] by simp
  qed
qed

theorem fanout_bounds_witness:
  "\<exists>tr. insert_all [10, 20, 5, 30, 15, 25, 3, 7 :: int] (BTree 2) = Some tr \<and>
           (case root tr of
              None \<Rightarrow> True
            | Some r \<Rightarrow>
                0 \<le> node_n r \<and> node_n r \<le> 2 * 2 - 1 \<and>
                (\<forall>nd\<in>set (tl (nodes_of r)). 2 - 1 \<le> node_n nd \<and> node_n nd \<le> 2 * 2 - 1) \<and>
                (\<forall>nd\<in>set (nodes_of r). \<not> is_leaf nd \<longrightarrow>
                   length (filter (\<lambda>c. c \<noteq> None) (children nd)) = nat (node_n nd + 1) \<and>
                   (\<forall>c\<in>set (node_children nd). c \<noteq> None)))"
  using fanout_bounds [of 2 "[10, 20, 5, 30, 15, 25, 3, 7 :: int]"]
  by (auto simp: INT_MAX_def)

text \<open>
  C3, as amended. The keys of a subtree are the keys of its nodes (\<open>subtree_keys\<close>), and
  \<open>child_bounds lt p\<close> says that every key \<open>x\<close> of the subtree under \<open>children[i]\<close>,
  \<open>i \<le> n\<close>, satisfies \<open>lt x keys[i]\<close> (for \<open>i < n\<close>) and \<open>lt keys[i - 1] x\<close> (for \<open>i > 0\<close>).
  In every tree reached by inserts into an empty tree of degree \<open>t \<ge> 2\<close> every internal
  node has its children bounded by \<open>\<le>\<close>, and by \<open><\<close> when the inserted keys are pairwise
  distinct. When \<open>2 * t \<le> INT_MAX\<close>, every sequence of inserts reaches a tree.
\<close>

theorem child_subtrees_bounded:
  fixes ks :: "'a::{linorder,zero} list"
  assumes "2 \<le> t"
  shows "(2 * t \<le> INT_MAX \<longrightarrow> (\<exists>tr. insert_all ks (BTree t) = Some tr)) \<and>
         (\<forall>tr. insert_all ks (BTree t) = Some tr \<longrightarrow>
           (case root tr of
              None \<Rightarrow> True
            | Some r \<Rightarrow>
                (\<forall>p\<in>set (nodes_of r). \<not> is_leaf p \<longrightarrow> child_bounds (\<le>) p) \<and>
                (distinct ks \<longrightarrow>
                   (\<forall>p\<in>set (nodes_of r). \<not> is_leaf p \<longrightarrow> child_bounds (<) p))))"
proof (intro conjI impI allI)
  assume "2 * t \<le> INT_MAX"
  with assms show "\<exists>tr. insert_all ks (BTree t) = Some tr" by (rule reachable_defined)
next
  fix tr
  assume "insert_all ks (BTree t) = Some tr"
  from reachable_tree [OF assms this] obtain tt where
    tt: "t = int tt" "0 < tt" and tr: "tree_wf tt tr"
    "mset (tree_inorder tr) = mset ks" "sorted (tree_inorder tr)"
    by blast
  show "case root tr of
              None \<Rightarrow> True
            | Some r \<Rightarrow>
                (\<forall>p\<in>set (nodes_of r). \<not> is_leaf p \<longrightarrow> child_bounds (\<le>) p) \<and>
                (distinct ks \<longrightarrow> (\<forall>p\<in>set (nodes_of r). \<not> is_leaf p \<longrightarrow> child_bounds (<) p))"
  proof (cases "root tr")
    case None
    then show ?thesis by simp
  next
    case (Some r)
    with tr have wf: "wf_node (int tt) (height r) r" and so: "sorted_wrt (\<le>) (inorder r)"
      and ms: "mset (inorder r) = mset ks"
      by (simp_all add: tree_wf_def tree_inorder_def)
    have gen: "child_bounds R p" if "sorted_wrt R (inorder r)" "p \<in> set (nodes_of r)" for R p
    proof -
      from all_nodes_wf [OF tt(2) wf that] obtain h' where
        "wf_node (int tt) h' p" "sorted_wrt R (inorder p)" by blast
      then show ?thesis by (rule child_bounds_wf [OF tt(2)])
    qed
    have "sorted_wrt (<) (inorder r)" if "distinct ks"
    proof -
      from ms that have "distinct (inorder r)" by (metis mset_eq_imp_distinct_iff)
      with so show ?thesis by (simp add: strict_sorted_iff)
    qed
    with gen so Some show ?thesis by auto
  qed
qed

theorem child_subtrees_bounded_witness:
  "\<exists>tr. insert_all [10, 20, 5, 30, 15, 25, 3, 7 :: int] (BTree 2) = Some tr \<and>
           (case root tr of
              None \<Rightarrow> True
            | Some r \<Rightarrow>
                (\<forall>p\<in>set (nodes_of r). \<not> is_leaf p \<longrightarrow> child_bounds (\<le>) p) \<and>
                (\<forall>p\<in>set (nodes_of r). \<not> is_leaf p \<longrightarrow> child_bounds (<) p))"
proof -
  let ?ks = "[10, 20, 5, 30, 15, 25, 3, 7 :: int]"
  have t: "2 \<le> (2::int)" and tb: "2 * 2 \<le> INT_MAX" and d: "distinct ?ks"
    by (simp_all add: INT_MAX_def)
  note C = child_subtrees_bounded [OF t, of ?ks]
  from C tb obtain tr where a: "insert_all ?ks (BTree 2) = Some tr" by blast
  with C have b: "case root tr of
              None \<Rightarrow> True
            | Some r \<Rightarrow>
                (\<forall>p\<in>set (nodes_of r). \<not> is_leaf p \<longrightarrow> child_bounds (\<le>) p) \<and>
                (distinct ?ks \<longrightarrow> (\<forall>p\<in>set (nodes_of r). \<not> is_leaf p \<longrightarrow> child_bounds (<) p))"
    by blast
  from b d have "case root tr of
              None \<Rightarrow> True
            | Some r \<Rightarrow>
                (\<forall>p\<in>set (nodes_of r). \<not> is_leaf p \<longrightarrow> child_bounds (\<le>) p) \<and>
                (\<forall>p\<in>set (nodes_of r). \<not> is_leaf p \<longrightarrow> child_bounds (<) p)"
    by (cases "root tr") simp_all
  with a show ?thesis by blast
qed

text \<open>
  C3 as it is stated asks for strict bounds in every reachable tree. With \<open>t = 2\<close>, the
  inserts 1, 1, 1, 1 leave the root with the key 1 over the leaves \<open>[1, 1]\<close> and \<open>[1]\<close>:
  the keys of both subtrees equal the separator.
\<close>

theorem strict_child_bounds_counterexample:
  "(case insert_all [1, 1, 1, 1 :: int] (BTree 2) of
      None \<Rightarrow> False
    | Some tr \<Rightarrow>
       (case root tr of
          None \<Rightarrow> False
        | Some r \<Rightarrow>
            \<not> is_leaf r \<and> node_keys r = [1] \<and>
            map (map_option subtree_keys) (node_children r) = [Some [1, 1], Some [1]] \<and>
            \<not> child_bounds (<) r))"
  by code_simp

end
